theory Spec2Isabelle
  imports Complex_Main "HOL-Library.Word"
begin

section \<open>NumPy arrays, Python ranges and slices\<close>

text \<open>
  A two-dimensional NumPy array is the list of its rows. Frames hold \<open>uint8\<close> samples
  (\<open>8 word\<close>); the arrays inside \<open>correlate_adjacent_frames\<close> hold \<open>float64\<close> values,
  which are modelled by the reals: every operation is exact, the rounding of IEEE-754
  doubles is left out. Python integers are \<open>int\<close>.

  An array without rows carries no column count in this representation; \<open>shape\<close>
  gives it zero columns. The frames the theorems below speak about have rows.
\<close>

type_synonym uint8 = "8 word"
type_synonym frame = "uint8 list list"
type_synonym farray = "real list list"

datatype error = ValueError

definition shape :: "'a list list \<Rightarrow> nat \<times> nat" where
  "shape a = (length a, case a of [] \<Rightarrow> 0 | row # _ \<Rightarrow> length row)"

text \<open>\<open>range(start, stop, step)\<close> for a positive step, and \<open>range(stop)\<close>.\<close>

definition py_range3 :: "int \<Rightarrow> int \<Rightarrow> int \<Rightarrow> int list" where
  "py_range3 start stop step =
     map (\<lambda>k. start + int k * step) [0..<nat ((stop - start + step - 1) div step)]"

definition py_range :: "int \<Rightarrow> int list" where
  "py_range stop = py_range3 0 stop 1"

text \<open>
  A slice bound of \<open>xs[i:j]\<close> on a sequence of length \<open>n\<close>: a negative bound counts
  from the end, and every bound is clipped to \<open>0..n\<close>. A slice never raises; it is
  empty when the stop is not after the start.
\<close>

definition slice_bound :: "nat \<Rightarrow> int \<Rightarrow> nat" where
  "slice_bound n i = (if i < 0 then nat (int n + i) else min n (nat i))"

definition py_slice :: "int \<Rightarrow> int \<Rightarrow> 'a list \<Rightarrow> 'a list" where
  "py_slice i j xs =
     (let n = length xs; a = slice_bound n i; b = slice_bound n j
      in take (b - a) (drop a xs))"

text \<open>\<open>a[r1:r2, c1:c2]\<close>\<close>

definition slice2 :: "int \<Rightarrow> int \<Rightarrow> int \<Rightarrow> int \<Rightarrow> 'a list list \<Rightarrow> 'a list list" where
  "slice2 r1 r2 c1 c2 a = map (py_slice c1 c2) (py_slice r1 r2 a)"

text \<open>
  \<open>a * b\<close> on two-dimensional arrays, with NumPy's broadcasting: along each axis the
  two extents are equal or one of them is 1 (that operand is then repeated); any other
  pair of extents raises \<open>ValueError\<close>.
\<close>

definition broadcastable :: "nat \<Rightarrow> nat \<Rightarrow> bool" where
  "broadcastable m n = (m = n \<or> m = 1 \<or> n = 1)"

definition bdim :: "nat \<Rightarrow> nat \<Rightarrow> nat" where
  "bdim m n = (if m = 1 then n else m)"

definition bidx :: "nat \<Rightarrow> nat \<Rightarrow> nat" where
  "bidx m i = (if m = 1 then 0 else i)"

definition np_mul :: "farray \<Rightarrow> farray \<Rightarrow> error + farray" where
  "np_mul a b =
     (let (ra, ca) = shape a; (rb, cb) = shape b
      in if broadcastable ra rb \<and> broadcastable ca cb
         then Inr (map (\<lambda>i. map (\<lambda>j. a ! bidx ra i ! bidx ca j * b ! bidx rb i ! bidx cb j)
                               [0..<bdim ca cb])
                       [0..<bdim ra rb])
         else Inl ValueError)"

definition np_sum :: "farray \<Rightarrow> real" where
  "np_sum a = sum_list (concat a)"

text \<open>\<open>np.mean\<close> of an array that has at least one sample.\<close>

definition np_mean :: "farray \<Rightarrow> real" where
  "np_mean a = sum_list (concat a) / real (length (concat a))"

definition np_full_like :: "'a list list \<Rightarrow> 'b \<Rightarrow> 'b list list" where
  "np_full_like a v = map (map (\<lambda>_. v)) a"

text \<open>\<open>a - b\<close> for two arrays of one shape (the source only subtracts a \<open>full_like\<close>).\<close>

definition np_sub :: "farray \<Rightarrow> farray \<Rightarrow> farray" where
  "np_sub a b = map2 (map2 (-)) a b"

text \<open>\<open>a.max()\<close> and \<open>a.min()\<close> of an array that has at least one sample.\<close>

definition np_max :: "farray \<Rightarrow> real" where
  "np_max a = Max (set (concat a))"

definition np_min :: "farray \<Rightarrow> real" where
  "np_min a = Min (set (concat a))"

text \<open>\<open>astype(np.uint8)\<close> of a finite value: the fraction is cut off.\<close>

definition astype_uint8 :: "real \<Rightarrow> uint8" where
  "astype_uint8 x = word_of_int (if 0 \<le> x then \<lfloor>x\<rfloor> else \<lceil>x\<rceil>)"

text \<open>A loop that collects one result per element and stops at the first exception.\<close>

primrec collect :: "('a \<Rightarrow> error + 'b) \<Rightarrow> 'a list \<Rightarrow> error + 'b list" where
  "collect f [] = Inr []"
| "collect f (x # xs) =
     (case f x of
        Inl e \<Rightarrow> Inl e
      | Inr y \<Rightarrow> (case collect f xs of Inl e \<Rightarrow> Inl e | Inr ys \<Rightarrow> Inr (y # ys)))"

section \<open>correlate\_adjacent\_frames\<close>

text \<open>Lines 21 and 22: \<open>np.copy(frame) / 255\<close>.\<close>

definition normalized :: "frame \<Rightarrow> farray" where
  "normalized f = map (map (\<lambda>x. real (unat x) / 255)) f"

text \<open>Line 24.\<close>

definition average_pixel_value :: "frame \<Rightarrow> frame \<Rightarrow> real" where
  "average_pixel_value previous_frame current_frame =
     (np_mean (normalized previous_frame) + np_mean (normalized current_frame)) / 2"

text \<open>Lines 26 and 27: the two frames after \<open>-= np.full_like(frame, average_pixel_value)\<close>.\<close>

definition normalized_previous_frame :: "frame \<Rightarrow> frame \<Rightarrow> farray" where
  "normalized_previous_frame previous_frame current_frame =
     (let a = normalized previous_frame
      in np_sub a (np_full_like a (average_pixel_value previous_frame current_frame)))"

definition normalized_current_frame :: "frame \<Rightarrow> frame \<Rightarrow> farray" where
  "normalized_current_frame previous_frame current_frame =
     (let a = normalized current_frame
      in np_sub a (np_full_like a (average_pixel_value previous_frame current_frame)))"

text \<open>Line 29.\<close>

definition convolutional_kernel :: "frame \<Rightarrow> frame \<Rightarrow> farray" where
  "convolutional_kernel previous_frame current_frame =
     (let (height, width) = shape current_frame
      in slice2 25 (int height - 25) 25 (int width - 25)
           (normalized_current_frame previous_frame current_frame))"

text \<open>
  Lines 33 to 36: \<open>output_image\<close> after the two loops. The product of the kernel and
  the window raises when their shapes cannot be broadcast together.
\<close>

definition output_image :: "frame \<Rightarrow> frame \<Rightarrow> error + farray" where
  "output_image previous_frame current_frame =
     (let kernel = convolutional_kernel previous_frame current_frame;
          prev = normalized_previous_frame previous_frame current_frame
      in collect (\<lambda>r. collect (\<lambda>c.
           (case np_mul kernel (slice2 r (r + 110) c (c + 110) prev) of
              Inl e \<Rightarrow> Inl e
            | Inr p \<Rightarrow> Inr (np_sum p))) (py_range 50)) (py_range 50))"

text \<open>
  Lines 38 to 42. When the maximum equals the minimum, every sample of the quotient is
  \<open>0.0 / 0.0\<close>: NumPy warns and gives \<open>nan\<close>, and what \<open>astype(np.uint8)\<close> makes of
  \<open>nan\<close> is left to the platform. That sample is the parameter \<open>nan_sample\<close>.
\<close>

definition rescaled :: "uint8 \<Rightarrow> farray \<Rightarrow> frame" where
  "rescaled nan_sample img =
     (let max_value = np_max img; min_value = np_min img
      in if max_value = min_value
         then np_full_like img nan_sample
         else map (map (\<lambda>x. astype_uint8 (x * 255 / (max_value - min_value))))
                (np_sub img (np_full_like img min_value)))"

definition correlate_adjacent_frames :: "uint8 \<Rightarrow> frame \<Rightarrow> frame \<Rightarrow> error + frame" where
  "correlate_adjacent_frames nan_sample previous_frame current_frame =
     (case output_image previous_frame current_frame of
        Inl e \<Rightarrow> Inl e
      | Inr img \<Rightarrow> Inr (rescaled nan_sample img))"

section \<open>make\_correlation\_video\<close>

text \<open>
  The video is what \<open>imageio.mimread\<close> returned; writing the result to a file does not
  change what is returned.
\<close>

definition make_correlation_video :: "uint8 \<Rightarrow> frame list \<Rightarrow> error + frame list" where
  "make_correlation_video nan_sample video =
     collect (\<lambda>i. correlate_adjacent_frames nan_sample (video ! nat i) (video ! nat (i + 1)))
       (py_range (int (length video) - 1))"

section \<open>is\_triangular\_path\<close>

text \<open>\<open>np.sum\<close> of \<open>uint8\<close> samples accumulates in a 64-bit integer: four samples never wrap.\<close>

definition np_sum_uint8 :: "frame \<Rightarrow> int" where
  "np_sum_uint8 a = sum_list (map uint (concat a))"

text \<open>Line 99, on the frame of line 94.\<close>

definition block_sum :: "frame \<Rightarrow> int \<times> int \<Rightarrow> int" where
  "block_sum f p =
     (case p of (r, c) \<Rightarrow> np_sum_uint8 (slice2 r (r + 2) c (c + 2) (slice2 0 50 0 50 f)))"

text \<open>Lines 99 to 102: the state is \<open>(max_val, max_loc)\<close>.\<close>

definition scan_step :: "frame \<Rightarrow> int \<Rightarrow> int \<times> (int \<times> int) \<Rightarrow> int \<Rightarrow> int \<times> (int \<times> int)" where
  "scan_step f r st c =
     (case st of (max_val, max_loc) \<Rightarrow>
        let val = block_sum f (r, c)
        in if val > max_val then (val, (r, c)) else (max_val, max_loc))"

text \<open>Lines 94 to 102.\<close>

definition max_loc :: "frame \<Rightarrow> int \<times> int" where
  "max_loc f =
     snd (foldl (\<lambda>st r. foldl (scan_step f r) st (py_range3 0 51 4))
            (0, (0, 0)) (py_range3 0 51 4))"

text \<open>Line 107.\<close>

definition change :: "int \<times> int \<Rightarrow> int \<times> int \<Rightarrow> real" where
  "change p q = sqrt (real_of_int ((fst p - fst q) ^ 2 + (snd p - snd q) ^ 2))"

text \<open>Lines 104 to 110: the state is \<open>(last_max_loc, turns)\<close>.\<close>

definition turn_step :: "(int \<times> int) option \<times> nat \<Rightarrow> frame \<Rightarrow> (int \<times> int) option \<times> nat" where
  "turn_step st f =
     (case st of (last_max_loc, turns) \<Rightarrow>
        let m = max_loc f
        in (case last_max_loc of
              None \<Rightarrow> (Some m, turns)
            | Some l \<Rightarrow> (Some m, if change m l > 20 then turns + 1 else turns)))"

definition count_turns :: "frame list \<Rightarrow> nat" where
  "count_turns correlated_video = snd (foldl turn_step (None, 0) correlated_video)"

definition is_triangular_path :: "uint8 \<Rightarrow> frame list \<Rightarrow> error + bool" where
  "is_triangular_path nan_sample video =
     (case make_correlation_video nan_sample video of
        Inl e \<Rightarrow> Inl e
      | Inr correlated_video \<Rightarrow> Inr (if count_turns correlated_video = 2 then True else False))"

section \<open>Notions used in the statements\<close>

text \<open>An array of \<open>h\<close> rows with \<open>w\<close> samples each.\<close>

definition has_shape :: "nat \<Rightarrow> nat \<Rightarrow> 'a list list \<Rightarrow> bool" where
  "has_shape h w a = (length a = h \<and> list_all (\<lambda>row. length row = w) a)"

text \<open>The corners visited by the two loops of lines 97 and 98, in the order of the visit.\<close>

definition scan_candidates :: "(int \<times> int) list" where
  "scan_candidates = List.product (py_range3 0 51 4) (py_range3 0 51 4)"

text \<open>Two correlation frames: one without any signal, one with a single bright sample.\<close>

definition dark :: frame where
  "dark = replicate 50 (replicate 50 0)"

definition spot :: frame where
  "spot = (replicate 50 (replicate 50 0))[40 := (replicate 50 0)[40 := 255]]"

text \<open>
  The score of the offset \<open>(r, c)\<close> in the words of the specification: the sum, over all
  positions of the 110 by 110 template, of the product of the template's sample and the
  sample of the zero-centred previous frame in the window whose top-left corner is
  \<open>(r, c)\<close>.
\<close>

definition spec_score :: "frame \<Rightarrow> frame \<Rightarrow> nat \<Rightarrow> nat \<Rightarrow> real" where
  "spec_score previous_frame current_frame r c =
     (\<Sum>i<110. \<Sum>j<110.
        convolutional_kernel previous_frame current_frame ! i ! j
        * normalized_previous_frame previous_frame current_frame ! (r + i) ! (c + j))"

text \<open>Reading \<open>output_image[r][c]\<close>: there is no value outside the array, or after an exception.\<close>

definition score_at :: "error + farray \<Rightarrow> nat \<Rightarrow> nat \<Rightarrow> real option" where
  "score_at res r c =
     (case res of
        Inl e \<Rightarrow> None
      | Inr img \<Rightarrow> if r < length img \<and> c < length (img ! r) then Some (img ! r ! c) else None)"

text \<open>
  The mean of the list made of all samples of both scaled frames, as the docstring of
  \<open>correlate_adjacent_frames\<close> words the offset.
\<close>

definition pooled_mean :: "frame \<Rightarrow> frame \<Rightarrow> real" where
  "pooled_mean previous_frame current_frame =
     (let samples = concat (normalized previous_frame) @ concat (normalized current_frame)
      in sum_list samples / real (length samples))"

text \<open>Frames without any signal, of 160 by 160 and of 100 by 100 samples, and a white frame of 200 by 200.\<close>

definition black :: frame where
  "black = replicate 160 (replicate 160 0)"

definition small :: frame where
  "small = replicate 100 (replicate 100 0)"

definition bright_wide :: frame where
  "bright_wide = replicate 200 (replicate 200 255)"

text \<open>
  The sum of the squares of the samples of the zero-centred previous frame in the window
  whose top-left corner is \<open>(r, c)\<close>.
\<close>

definition window_energy :: "frame \<Rightarrow> frame \<Rightarrow> nat \<Rightarrow> nat \<Rightarrow> real" where
  "window_energy previous_frame current_frame r c =
     (\<Sum>i<110. \<Sum>j<110. (normalized_previous_frame previous_frame current_frame ! (r + i) ! (c + j))\<^sup>2)"

text \<open>A frame that is white in row 0, at a third of the full intensity in row 25, and black elsewhere.\<close>

definition ridge :: frame where
  "ridge = map (\<lambda>i. replicate 160 (if i = 0 then 255 else if i = 25 then 85 else 0)) [0..<160]"

text \<open>A correlation frame with a single bright sample at a distance of exactly 20 from the origin.\<close>

definition near_spot :: frame where
  "near_spot = (replicate 50 (replicate 50 0))[12 := (replicate 50 0)[16 := 255]]"

text \<open>
  Double precision, for the one step where the claims depend on it. \<open>round_f64\<close> rounds a
  real to the nearest double (53 significant bits, ties to the even significand), for
  values in the normal range; \<open>rescaled_sample_f64\<close> is lines 40 and 42 for one sample
  \<open>x\<close> of \<open>output_image\<close>, every operation rounded as the code rounds it.
\<close>

definition round_half_even :: "real \<Rightarrow> int" where
  "round_half_even q =
     (let n = \<lfloor>q\<rfloor>; r = q - of_int n
      in if r < 1 / 2 then n else if 1 / 2 < r then n + 1 else if even n then n else n + 1)"

definition round_f64 :: "real \<Rightarrow> real" where
  "round_f64 x =
     (if x = 0 then 0
      else let u = 2 powr (of_int \<lfloor>log 2 \<bar>x\<bar>\<rfloor> - 52)
           in of_int (round_half_even (x / u)) * u)"

definition rescaled_sample_f64 :: "real \<Rightarrow> real \<Rightarrow> real \<Rightarrow> uint8" where
  "rescaled_sample_f64 x min_value max_value =
     astype_uint8 (round_f64 (round_f64 (round_f64 (x - min_value) * 255)
                              / round_f64 (max_value - min_value)))"

text \<open>
  The greatest and the least score that the code computes, in double precision, when the
  frame whose row 0 is 1 and whose other samples are 0 is correlated with itself:
  \<open>7.268838908112262e-06\<close> and \<open>-3.3040176855055767e-06\<close>.
\<close>

definition top_row_max :: real where
  "top_row_max = 4290765153631017 / 2 ^ 69"

definition top_row_min :: real where
  "top_row_min = - (3900695594210019 / 2 ^ 70)"

text \<open>
  A frame of 160 by 160 samples that is white in row \<open>k\<close> and black elsewhere, and a
  correlation frame that is 255 in row \<open>r\<close> and 0 elsewhere.
\<close>

definition bright_row :: "nat \<Rightarrow> frame" where
  "bright_row k = map (\<lambda>i. replicate 160 (if i = k then 255 else 0)) [0..<160]"

definition row_frame :: "nat \<Rightarrow> frame" where
  "row_frame r = map (\<lambda>i. replicate 50 (if i = r then 255 else 0)) [0..<50]"

section \<open>The scan of one correlation frame\<close>

lemma stride_values: "py_range3 0 51 4 = [0, 4, 8, 12, 16, 20, 24, 28, 32, 36, 40, 44, 48]"
  by code_simp

lemma foldl_nested_product:
  "foldl (\<lambda>st r. foldl (g r) st cs) st rs = foldl (\<lambda>st p. g (fst p) st (snd p)) st (List.product rs cs)"
proof (induction rs arbitrary: st)
  case Nil show ?case by simp
next
  case (Cons r rs)
  have "foldl (\<lambda>st p. g (fst p) st (snd p)) st (map (Pair r) cs) = foldl (g r) st cs" for st
    by (induction cs arbitrary: st) simp_all
  with Cons show ?case by simp
qed

lemma argmax_scan:
  fixes v :: "'a \<Rightarrow> int"
  defines "step \<equiv> \<lambda>st q. (if v q > fst st then (v q, q) else st)"
  shows "(fst (foldl step (m0, l0) qs) = m0 \<and> snd (foldl step (m0, l0) qs) = l0 \<and> (\<forall>j<length qs. v (qs ! j) \<le> m0))
       \<or> (\<exists>k<length qs. snd (foldl step (m0, l0) qs) = qs ! k \<and> fst (foldl step (m0, l0) qs) = v (qs ! k)
             \<and> m0 < v (qs ! k) \<and> (\<forall>j<k. v (qs ! j) < v (qs ! k)) \<and> (\<forall>j<length qs. v (qs ! j) \<le> v (qs ! k)))"
proof (induction qs rule: rev_induct)
  case Nil show ?case by simp
next
  case (snoc x xs)
  let ?s = "foldl step (m0, l0) xs"
  have f: "foldl step (m0, l0) (xs @ [x]) = step ?s x" by simp
  show ?case
  proof (cases "v x > fst ?s")
    case True
    then have r: "step ?s x = (v x, x)" by (simp add: step_def)
    from snoc True have "m0 < v x \<and> (\<forall>j<length xs. v (xs ! j) < v x)"
      by (auto simp: less_le_trans dest: spec) 
    then have "length xs < length (xs @ [x]) \<and> snd (step ?s x) = (xs @ [x]) ! length xs \<and> fst (step ?s x) = v ((xs @ [x]) ! length xs)
       \<and> m0 < v ((xs @ [x]) ! length xs) \<and> (\<forall>j<length xs. v ((xs @ [x]) ! j) < v ((xs @ [x]) ! length xs))
       \<and> (\<forall>j<length (xs @ [x]). v ((xs @ [x]) ! j) \<le> v ((xs @ [x]) ! length xs))"
      using r by (auto simp: nth_append less_Suc_eq)
    then show ?thesis unfolding f by blast
  next
    case False
    then have r: "step ?s x = ?s" by (simp add: step_def)
    from snoc show ?thesis
    proof
      assume a: "fst ?s = m0 \<and> snd ?s = l0 \<and> (\<forall>j<length xs. v (xs ! j) \<le> m0)"
      with False have "\<forall>j<length (xs @ [x]). v ((xs @ [x]) ! j) \<le> m0"
        by (auto simp: nth_append less_Suc_eq)
      with a show ?thesis unfolding f r by blast
    next
      assume "\<exists>k<length xs. snd ?s = xs ! k \<and> fst ?s = v (xs ! k)
             \<and> m0 < v (xs ! k) \<and> (\<forall>j<k. v (xs ! j) < v (xs ! k)) \<and> (\<forall>j<length xs. v (xs ! j) \<le> v (xs ! k))"
      then obtain k where k: "k < length xs" "snd ?s = xs ! k" "fst ?s = v (xs ! k)"
             "m0 < v (xs ! k)" "\<forall>j<k. v (xs ! j) < v (xs ! k)" "\<forall>j<length xs. v (xs ! j) \<le> v (xs ! k)" by blast
      with False have "k < length (xs @ [x]) \<and> snd ?s = (xs @ [x]) ! k \<and> fst ?s = v ((xs @ [x]) ! k)
             \<and> m0 < v ((xs @ [x]) ! k) \<and> (\<forall>j<k. v ((xs @ [x]) ! j) < v ((xs @ [x]) ! k)) \<and> (\<forall>j<length (xs @ [x]). v ((xs @ [x]) ! j) \<le> v ((xs @ [x]) ! k))"
        by (auto simp: nth_append less_Suc_eq)
      then show ?thesis unfolding f r by blast
    qed
  qed
qed

lemma max_loc_fold:
  "max_loc f = snd (foldl (\<lambda>st q. if block_sum f q > fst st then (block_sum f q, q) else st)
                      (0, (0, 0)) scan_candidates)"
proof -
  have "(\<lambda>st p. scan_step f (fst p) st (snd p))
      = (\<lambda>st q. if block_sum f q > fst st then (block_sum f q, q) else st)"
    by (auto simp: scan_step_def fun_eq_iff Let_def split: prod.splits)
  then show ?thesis
    by (simp add: max_loc_def scan_candidates_def foldl_nested_product)
qed

lemma block_sum_nonneg: "0 \<le> block_sum f q"
  by (cases q) (auto simp: block_sum_def np_sum_uint8_def intro!: sum_list_nonneg)

lemma scan_candidates_length: "length scan_candidates = 169"
  by (simp add: scan_candidates_def stride_values)

lemma scan_candidates_first: "scan_candidates ! 0 = (0, 0)"
  by (simp add: scan_candidates_def stride_values)

lemma scan_candidates_set:
  "set scan_candidates = set (py_range3 0 51 4) \<times> set (py_range3 0 51 4)"
  by (simp add: scan_candidates_def)

lemma stride_member: "r \<in> set (py_range3 0 51 4) \<longleftrightarrow> 0 \<le> r \<and> r \<le> 48 \<and> 4 dvd r"
proof
  assume "r \<in> set (py_range3 0 51 4)"
  then show "0 \<le> r \<and> r \<le> 48 \<and> 4 dvd r" by (auto simp: stride_values)
next
  assume a: "0 \<le> r \<and> r \<le> 48 \<and> 4 dvd r"
  then obtain k where k: "r = 4 * k" by (auto simp: dvd_def)
  with a have "0 \<le> k \<and> k \<le> 12" by simp
  then have "k = 0 \<or> k = 1 \<or> k = 2 \<or> k = 3 \<or> k = 4 \<or> k = 5 \<or> k = 6 \<or> k = 7 \<or> k = 8
      \<or> k = 9 \<or> k = 10 \<or> k = 11 \<or> k = 12" by presburger
  then show "r \<in> set (py_range3 0 51 4)" using k by (auto simp: stride_values)
qed

lemma max_loc_first_maximum:
  "\<exists>k<length scan_candidates. max_loc f = scan_candidates ! k
     \<and> (\<forall>j<k. block_sum f (scan_candidates ! j) < block_sum f (scan_candidates ! k))
     \<and> (\<forall>j<length scan_candidates. block_sum f (scan_candidates ! j) \<le> block_sum f (scan_candidates ! k))"
proof -
  let ?st = "foldl (\<lambda>st q. if block_sum f q > fst st then (block_sum f q, q) else st)
                      (0, (0, 0)) scan_candidates"
  from argmax_scan [of "block_sum f" 0 "(0, 0)" scan_candidates]
  consider (base) "snd ?st = (0, 0)" "\<forall>j<length scan_candidates. block_sum f (scan_candidates ! j) \<le> 0"
    | (found) k where "k < length scan_candidates" "snd ?st = scan_candidates ! k"
       "\<forall>j<k. block_sum f (scan_candidates ! j) < block_sum f (scan_candidates ! k)"
       "\<forall>j<length scan_candidates. block_sum f (scan_candidates ! j) \<le> block_sum f (scan_candidates ! k)"
    by blast
  then show ?thesis
  proof cases
    case base
    have z: "block_sum f (scan_candidates ! j) = 0" if "j < length scan_candidates" for j
      using base(2) that block_sum_nonneg [of f "scan_candidates ! j"] by force
    have "0 < length scan_candidates \<and> max_loc f = scan_candidates ! 0
       \<and> (\<forall>j<0. block_sum f (scan_candidates ! j) < block_sum f (scan_candidates ! 0))
       \<and> (\<forall>j<length scan_candidates. block_sum f (scan_candidates ! j) \<le> block_sum f (scan_candidates ! 0))"
      using base(1) z by (simp add: max_loc_fold scan_candidates_first scan_candidates_length block_sum_nonneg)
    then show ?thesis by blast
  next
    case found
    then show ?thesis unfolding max_loc_fold by blast
  qed
qed

lemma max_loc_baseline:
  assumes "\<forall>q\<in>set scan_candidates. block_sum f q \<le> 0"
  shows "max_loc f = (0, 0)"
proof -
  from max_loc_first_maximum [of f] obtain k where k: "k < length scan_candidates"
    "max_loc f = scan_candidates ! k"
    "\<forall>j<k. block_sum f (scan_candidates ! j) < block_sum f (scan_candidates ! k)" by blast
  have "k = 0"
  proof (rule ccontr)
    assume "k \<noteq> 0"
    then have "block_sum f (scan_candidates ! 0) < block_sum f (scan_candidates ! k)" using k(3) by simp
    moreover have "block_sum f (scan_candidates ! k) \<le> 0" using assms k(1) by simp
    ultimately show False using block_sum_nonneg [of f "scan_candidates ! 0"] by simp
  qed
  with k(2) show ?thesis by (simp add: scan_candidates_first)
qed

lemma max_loc_in_candidates: "max_loc f \<in> set scan_candidates"
  using max_loc_first_maximum [of f] by (metis nth_mem)

lemma has_shape_nth: "has_shape h w a \<Longrightarrow> i < h \<Longrightarrow> length (a ! i) = w"
  by (simp add: has_shape_def list_all_length)

lemma has_shapeI: "length a = h \<Longrightarrow> (\<And>i. i < h \<Longrightarrow> length (a ! i) = w) \<Longrightarrow> has_shape h w a"
  by (simp add: has_shape_def list_all_length)

lemma py_slice_inside:
  assumes "0 \<le> i" "i \<le> j" "j \<le> int (length xs)"
  shows "py_slice i j xs = take (nat (j - i)) (drop (nat i) xs)"
proof -
  have "slice_bound (length xs) i = nat i" "slice_bound (length xs) j = nat j"
    using assms by (auto simp: slice_bound_def)
  moreover have "nat j - nat i = nat (j - i)" using assms by linarith
  ultimately show ?thesis by (simp add: py_slice_def Let_def)
qed

lemma py_slice_length:
  assumes "0 \<le> i" "i \<le> j" "j \<le> int (length xs)"
  shows "length (py_slice i j xs) = nat (j - i)"
  using assms by (simp add: py_slice_inside)

lemma py_slice_nth:
  assumes "0 \<le> i" "i \<le> j" "j \<le> int (length xs)" "k < nat (j - i)"
  shows "py_slice i j xs ! k = xs ! (nat i + k)"
  using assms by (simp add: py_slice_inside)

lemma py_slice_all:
  "py_slice 0 (int (length xs)) xs = xs"
  by (simp add: py_slice_def slice_bound_def)

lemma slice2_shape:
  assumes "has_shape h w a" "0 \<le> r1" "r1 \<le> r2" "r2 \<le> int h" "0 \<le> c1" "c1 \<le> c2" "c2 \<le> int w"
  shows "has_shape (nat (r2 - r1)) (nat (c2 - c1)) (slice2 r1 r2 c1 c2 a)"
proof (rule has_shapeI)
  from assms have la: "length a = h" by (simp add: has_shape_def)
  show len: "length (slice2 r1 r2 c1 c2 a) = nat (r2 - r1)"
    using assms la by (simp add: slice2_def py_slice_length)
  fix i assume i: "i < nat (r2 - r1)"
  then have "nat r1 + i < h" using assms by linarith
  then have "length (a ! (nat r1 + i)) = w" using assms(1) by (rule has_shape_nth [rotated])
  moreover have "slice2 r1 r2 c1 c2 a ! i = py_slice c1 c2 (a ! (nat r1 + i))"
    using assms la i by (simp add: slice2_def py_slice_length py_slice_nth)
  ultimately show "length (slice2 r1 r2 c1 c2 a ! i) = nat (c2 - c1)"
    using assms by (simp add: py_slice_length)
qed

lemma slice2_nth:
  assumes "has_shape h w a" "0 \<le> r1" "r1 \<le> r2" "r2 \<le> int h" "0 \<le> c1" "c1 \<le> c2" "c2 \<le> int w"
    and "i < nat (r2 - r1)" "j < nat (c2 - c1)"
  shows "slice2 r1 r2 c1 c2 a ! i ! j = a ! (nat r1 + i) ! (nat c1 + j)"
proof -
  from assms have la: "length a = h" by (simp add: has_shape_def)
  have "nat r1 + i < h" using assms by linarith
  then have "length (a ! (nat r1 + i)) = w" using assms(1) by (rule has_shape_nth [rotated])
  moreover have "slice2 r1 r2 c1 c2 a ! i = py_slice c1 c2 (a ! (nat r1 + i))"
    using assms la by (simp add: slice2_def py_slice_length py_slice_nth)
  ultimately show ?thesis using assms by (simp add: py_slice_nth)
qed

lemma slice2_whole:
  assumes "has_shape h w a"
  shows "slice2 0 (int h) 0 (int w) a = a"
proof -
  have "map (py_slice 0 (int w)) a = a"
    using assms by (intro map_idI) (auto simp: has_shape_def list_all_iff py_slice_all)
  moreover have "py_slice 0 (int h) a = a" using assms py_slice_all [of a] by (simp add: has_shape_def)
  ultimately show ?thesis by (simp add: slice2_def)
qed

lemma two_by_two:
  assumes "has_shape 2 2 a"
  shows "a = [[a ! 0 ! 0, a ! 0 ! 1], [a ! 1 ! 0, a ! 1 ! 1]]"
proof -
  have l: "length a = 2" "length (a ! 0) = 2" "length (a ! 1) = 2"
    using assms by (simp_all add: has_shape_def list_all_length)
  have row: "xs = [xs ! 0, xs ! 1]" if "length xs = 2" for xs :: "'a list"
    using that by (auto simp: list_eq_iff_nth_eq less_Suc_eq numeral_2_eq_2)
  have "a = [a ! 0, a ! 1]" using l(1) by (auto simp: list_eq_iff_nth_eq less_Suc_eq numeral_2_eq_2)
  also have "a ! 0 = [a ! 0 ! 0, a ! 0 ! 1]" using l(2) by (rule row)
  also have "a ! 1 = [a ! 1 ! 0, a ! 1 ! 1]" using l(3) by (rule row)
  finally show ?thesis .
qed

lemma block_sum_50:
  assumes f: "has_shape 50 50 f" and q: "(r, c) \<in> set scan_candidates"
  shows "block_sum f (r, c) =
           uint (f ! nat r ! nat c) + uint (f ! nat r ! (nat c + 1))
         + uint (f ! (nat r + 1) ! nat c) + uint (f ! (nat r + 1) ! (nat c + 1))"
proof -
  from q have rc: "0 \<le> r" "r \<le> 48" "0 \<le> c" "c \<le> 48"
    by (simp_all add: scan_candidates_set stride_member)
  have whole: "slice2 0 50 0 50 f = f" using slice2_whole [OF f] by simp
  let ?b = "slice2 r (r + 2) c (c + 2) f"
  have sh: "has_shape 2 2 ?b"
    using slice2_shape [OF f, of r "r + 2" c "c + 2"] rc by simp
  have n: "?b ! i ! j = f ! (nat r + i) ! (nat c + j)" if "i < 2" "j < 2" for i j
    using slice2_nth [OF f, of r "r + 2" c "c + 2" i j] rc that by simp
  have "?b = [[?b ! 0 ! 0, ?b ! 0 ! 1], [?b ! 1 ! 0, ?b ! 1 ! 1]]" by (rule two_by_two [OF sh])
  also have "\<dots> = [[f ! nat r ! nat c, f ! nat r ! (nat c + 1)],
                    [f ! (nat r + 1) ! nat c, f ! (nat r + 1) ! (nat c + 1)]]"
    by (simp add: n)
  finally have "?b = [[f ! nat r ! nat c, f ! nat r ! (nat c + 1)],
                    [f ! (nat r + 1) ! nat c, f ! (nat r + 1) ! (nat c + 1)]]" .
  then show ?thesis by (simp add: block_sum_def whole np_sum_uint8_def)
qed

lemma turn_loop:
  "foldl turn_step (None, 0) cv =
     (if cv = [] then None else Some (max_loc (last cv)),
      length (filter (\<lambda>i. 20 < change (max_loc (cv ! i)) (max_loc (cv ! (i - 1)))) [1..<length cv]))"
proof (induction cv rule: rev_induct)
  case Nil
  show ?case by simp
next
  case (snoc x xs)
  show ?case
  proof (cases "xs = []")
    case True
    then show ?thesis by (simp add: turn_step_def)
  next
    case False
    then have len: "0 < length xs" by simp
    let ?P = "\<lambda>ys i. 20 < change (max_loc (ys ! i)) (max_loc (ys ! (i - 1)))"
    have same: "filter (?P (xs @ [x])) [1..<length xs] = filter (?P xs) [1..<length xs]"
      by (rule filter_cong) (auto simp: nth_append)
    have lastx: "(xs @ [x]) ! (length xs - Suc 0) = last xs"
      using False by (simp add: nth_append last_conv_nth)
    have up: "[1..<length (xs @ [x])] = [1..<length xs] @ [length xs]"
      using len by (simp add: Suc_leI)
    show ?thesis
      using False snoc
      by (simp only: foldl_append foldl_Cons foldl_Nil up filter_append same)
         (simp add: turn_step_def lastx Let_def)
  qed
qed

lemma count_turns_filter:
  "count_turns cv =
     length (filter (\<lambda>i. 20 < change (max_loc (cv ! i)) (max_loc (cv ! (i - 1)))) [1..<length cv])"
  by (simp add: count_turns_def turn_loop)


lemma dark_shape: "has_shape 50 50 dark"
  by (simp add: has_shape_def dark_def list_all_iff)

lemma spot_shape: "has_shape 50 50 spot"
  by (rule has_shapeI) (simp_all add: spot_def nth_list_update)

lemma spot_nth: "i < 50 \<Longrightarrow> j < 50 \<Longrightarrow> spot ! i ! j = (if i = 40 \<and> j = 40 then 255 else 0)"
  by (simp add: spot_def nth_list_update)

lemma dark_nth: "i < 50 \<Longrightarrow> j < 50 \<Longrightarrow> dark ! i ! j = 0"
  by (simp add: dark_def)

lemma block_sum_dark:
  assumes "q \<in> set scan_candidates" shows "block_sum dark q = 0"
proof -
  obtain r c where q: "q = (r, c)" by (cases q)
  with assms have rc: "0 \<le> r" "r \<le> 48" "0 \<le> c" "c \<le> 48"
    by (simp_all add: scan_candidates_set stride_member)
  then have "nat r < 50" "nat r + 1 < 50" "nat c < 50" "nat c + 1 < 50" by linarith+
  then show ?thesis
    using block_sum_50 [OF dark_shape, of r c] assms q by (simp add: dark_nth)
qed

lemma block_sum_spot:
  assumes "q \<in> set scan_candidates" shows "block_sum spot q = (if q = (40, 40) then 255 else 0)"
proof -
  obtain r c where q: "q = (r, c)" by (cases q)
  with assms have rc: "0 \<le> r" "r \<le> 48" "0 \<le> c" "c \<le> 48" "4 dvd r" "4 dvd c"
    by (simp_all add: scan_candidates_set stride_member)
  then have b: "nat r < 50" "nat r + 1 < 50" "nat c < 50" "nat c + 1 < 50" by linarith+
  have e: "nat r = 40 \<longleftrightarrow> r = 40" "nat c = 40 \<longleftrightarrow> c = 40" using rc by linarith+
  have n: "nat r + 1 \<noteq> 40" "nat c + 1 \<noteq> 40" using rc by presburger+
  show ?thesis
    using block_sum_50 [OF spot_shape, of r c] assms q b e n by (simp add: spot_nth)
qed

lemma change_gt_20:
  "20 < change p q \<longleftrightarrow> 400 < (fst p - fst q) ^ 2 + (snd p - snd q) ^ 2"
proof -
  have "(20::real) = sqrt 400" using real_sqrt_abs [of 20] by simp
  then have "20 < change p q \<longleftrightarrow> sqrt 400 < sqrt (real_of_int ((fst p - fst q) ^ 2 + (snd p - snd q) ^ 2))"
    by (simp add: change_def)
  also have "\<dots> \<longleftrightarrow> 400 < real_of_int ((fst p - fst q) ^ 2 + (snd p - snd q) ^ 2)"
    by (rule real_sqrt_less_iff)
  also have "\<dots> \<longleftrightarrow> 400 < (fst p - fst q) ^ 2 + (snd p - snd q) ^ 2" by linarith
  finally show ?thesis .
qed


lemma make_correlation_video_short:
  "length video < 2 \<Longrightarrow> make_correlation_video nan_sample video = Inr []"
  by (simp add: make_correlation_video_def py_range_def py_range3_def)

lemma max_loc_dark: "max_loc dark = (0, 0)"
  by (rule max_loc_baseline) (simp add: block_sum_dark)

lemma max_loc_spot: "max_loc spot = (40, 40)"
proof -
  from max_loc_first_maximum [of spot] obtain k where k: "k < length scan_candidates"
    "max_loc spot = scan_candidates ! k"
    "\<forall>j<length scan_candidates. block_sum spot (scan_candidates ! j) \<le> block_sum spot (scan_candidates ! k)"
    by blast
  have "(40, 40) \<in> set scan_candidates" by (simp add: scan_candidates_set stride_member)
  then obtain j where j: "j < length scan_candidates" "scan_candidates ! j = (40, 40)"
    by (auto simp: in_set_conv_nth)
  then have "block_sum spot (40, 40) \<le> block_sum spot (scan_candidates ! k)" using k(3) by force
  moreover have "block_sum spot (40, 40) = 255" using j by (metis block_sum_spot nth_mem)
  moreover have "block_sum spot (scan_candidates ! k) = (if scan_candidates ! k = (40, 40) then 255 else 0)"
    using k(1) by (simp add: block_sum_spot)
  ultimately have "scan_candidates ! k = (40, 40)" by (simp split: if_splits)
  with k(2) show ?thesis by simp
qed

section \<open>The peak of a correlation frame\<close>

text \<open>
  C4. The peak of a correlation frame is found by visiting the corners
  \<open>(r, c)\<close> with \<open>r\<close> and \<open>c\<close> in 0, 4, ..., 48 (stride 4 over the range from 0 to 50), row
  by row; each corner is valued by the sum of the 2 by 2 block of samples that starts
  there; the result is the first corner in the order of the visit whose sum is the
  greatest of all, so a tie keeps the corner found first; and when no sum exceeds the
  baseline 0, the result is the initial location \<open>(0, 0)\<close>.
\<close>

theorem peak_scan:
  "scan_candidates =
     List.product [0, 4, 8, 12, 16, 20, 24, 28, 32, 36, 40, 44, 48]
                  [0, 4, 8, 12, 16, 20, 24, 28, 32, 36, 40, 44, 48]
   \<and> (\<exists>k<length scan_candidates. max_loc f = scan_candidates ! k
        \<and> (\<forall>j<k. block_sum f (scan_candidates ! j) < block_sum f (scan_candidates ! k))
        \<and> (\<forall>j<length scan_candidates.
              block_sum f (scan_candidates ! j) \<le> block_sum f (scan_candidates ! k)))
   \<and> ((\<forall>q\<in>set scan_candidates. block_sum f q \<le> 0) \<longrightarrow> max_loc f = (0, 0))
   \<and> (has_shape 50 50 f \<longrightarrow>
        (\<forall>q\<in>set scan_candidates.
           block_sum f q =
             uint (f ! nat (fst q) ! nat (snd q)) + uint (f ! nat (fst q) ! (nat (snd q) + 1))
           + uint (f ! (nat (fst q) + 1) ! nat (snd q))
           + uint (f ! (nat (fst q) + 1) ! (nat (snd q) + 1))))"
proof (intro conjI)
  show "scan_candidates =
     List.product [0, 4, 8, 12, 16, 20, 24, 28, 32, 36, 40, 44, 48]
                  [0, 4, 8, 12, 16, 20, 24, 28, 32, 36, 40, 44, 48]"
    by (simp only: scan_candidates_def stride_values)
  show "\<exists>k<length scan_candidates. max_loc f = scan_candidates ! k
        \<and> (\<forall>j<k. block_sum f (scan_candidates ! j) < block_sum f (scan_candidates ! k))
        \<and> (\<forall>j<length scan_candidates.
              block_sum f (scan_candidates ! j) \<le> block_sum f (scan_candidates ! k))"
    by (rule max_loc_first_maximum)
  show "(\<forall>q\<in>set scan_candidates. block_sum f q \<le> 0) \<longrightarrow> max_loc f = (0, 0)"
    using max_loc_baseline by blast
  show "has_shape 50 50 f \<longrightarrow>
        (\<forall>q\<in>set scan_candidates.
           block_sum f q =
             uint (f ! nat (fst q) ! nat (snd q)) + uint (f ! nat (fst q) ! (nat (snd q) + 1))
           + uint (f ! (nat (fst q) + 1) ! nat (snd q))
           + uint (f ! (nat (fst q) + 1) ! (nat (snd q) + 1)))"
    using block_sum_50 by fastforce
qed

theorem peak_scan_witness:
  "has_shape 50 50 spot \<and> max_loc spot = (40, 40)
   \<and> list_all (\<lambda>q. block_sum dark q \<le> 0) scan_candidates \<and> max_loc dark = (0, 0)"
proof -
  have d: "\<forall>q\<in>set scan_candidates. block_sum dark q \<le> 0" by (simp add: block_sum_dark)
  then have "max_loc dark = (0, 0)" using peak_scan [of dark] by blast
  moreover have "max_loc spot = (40, 40)"
  proof -
    from peak_scan [of spot] obtain k where k: "k < length scan_candidates"
      "max_loc spot = scan_candidates ! k"
      "\<forall>j<length scan_candidates. block_sum spot (scan_candidates ! j) \<le> block_sum spot (scan_candidates ! k)"
      by blast
    have "(40, 40) \<in> set scan_candidates" by (simp add: scan_candidates_set stride_member)
    then obtain j where j: "j < length scan_candidates" "scan_candidates ! j = (40, 40)"
      by (auto simp: in_set_conv_nth)
    then have "block_sum spot (40, 40) \<le> block_sum spot (scan_candidates ! k)" using k(3) by force
    moreover have "block_sum spot (40, 40) = 255" using j by (metis block_sum_spot nth_mem)
    moreover have "block_sum spot (scan_candidates ! k) = (if scan_candidates ! k = (40, 40) then 255 else 0)"
      using k(1) by (simp add: block_sum_spot)
    ultimately have "scan_candidates ! k = (40, 40)" by (simp split: if_splits)
    with k(2) show ?thesis by simp
  qed
  ultimately show ?thesis using d spot_shape by (simp add: list_all_iff)
qed

text \<open>
  C10. Both coordinates of every peak location are multiples of 4 between 0 and 48, so
  the distance between two peak locations is at most the diagonal of that grid, the
  square root of \<open>2 * 48\<^sup>2 = 4608\<close>.
\<close>

theorem peak_on_grid:
  "4 dvd fst (max_loc f) \<and> 0 \<le> fst (max_loc f) \<and> fst (max_loc f) \<le> 48
   \<and> 4 dvd snd (max_loc f) \<and> 0 \<le> snd (max_loc f) \<and> snd (max_loc f) \<le> 48
   \<and> change (max_loc f) (max_loc g) \<le> sqrt 4608"
proof -
  have m: "fst (max_loc h) \<in> set (py_range3 0 51 4) \<and> snd (max_loc h) \<in> set (py_range3 0 51 4)" for h
    using max_loc_in_candidates [of h] unfolding scan_candidates_set by (auto simp: mem_Times_iff)
  have b: "0 \<le> fst (max_loc h) \<and> fst (max_loc h) \<le> 48 \<and> 0 \<le> snd (max_loc h) \<and> snd (max_loc h) \<le> 48" for h
    using m [of h] by (simp add: stride_member)
  have sq: "(x - y) ^ 2 \<le> 2304" if "0 \<le> x" "x \<le> 48" "0 \<le> y" "y \<le> 48" for x y :: int
  proof -
    have "\<bar>x - y\<bar> \<le> \<bar>48\<bar>" using that by simp
    then have "(x - y) ^ 2 \<le> 48 ^ 2" by (simp only: abs_le_square_iff)
    then show ?thesis by simp
  qed
  have "(fst (max_loc f) - fst (max_loc g)) ^ 2 + (snd (max_loc f) - snd (max_loc g)) ^ 2 \<le> 4608"
    using sq [of "fst (max_loc f)" "fst (max_loc g)"] sq [of "snd (max_loc f)" "snd (max_loc g)"]
      b [of f] b [of g] by simp
  then have "change (max_loc f) (max_loc g) \<le> sqrt 4608"
    unfolding change_def by (intro real_sqrt_le_mono) linarith
  then show ?thesis using m [of f] by (simp add: stride_member)
qed

theorem peak_on_grid_witness:
  "4 dvd fst (max_loc spot) \<and> fst (max_loc spot) \<le> 48 \<and> change (max_loc spot) (max_loc dark) \<le> sqrt 4608"
  using peak_on_grid [of spot dark] by simp

section \<open>The correlation of two frames\<close>

lemma collect_Inr_iff:
  "collect f xs = Inr ys \<longleftrightarrow> length ys = length xs \<and> (\<forall>i<length xs. f (xs ! i) = Inr (ys ! i))"
proof (induction xs arbitrary: ys)
  case Nil
  show ?case by auto
next
  case (Cons x xs)
  show ?case
  proof (cases "f x")
    case (Inl e)
    then show ?thesis by auto
  next
    case fx: (Inr y)
    show ?thesis
    proof (cases "collect f xs")
      case (Inl e)
      have "\<not> (length zs = length xs \<and> (\<forall>i<length xs. f (xs ! i) = Inr (zs ! i)))" for zs
        using Cons.IH [of zs] Inl by simp
      then have "\<not> (length ys = length (x # xs) \<and> (\<forall>i<length (x # xs). f ((x # xs) ! i) = Inr (ys ! i)))"
        by (cases ys) (auto simp: nth_Cons split: nat.splits)
      then show ?thesis using fx Inl by simp
    next
      case (Inr zs)
      then have zs: "length zs = length xs" "\<forall>i<length xs. f (xs ! i) = Inr (zs ! i)"
        using Cons.IH [of zs] by simp_all
      show ?thesis
      proof
        assume "collect f (x # xs) = Inr ys"
        then have "ys = y # zs" using fx Inr by simp
        then show "length ys = length (x # xs) \<and> (\<forall>i<length (x # xs). f ((x # xs) ! i) = Inr (ys ! i))"
          using zs fx by (auto simp: nth_Cons split: nat.splits)
      next
        assume a: "length ys = length (x # xs) \<and> (\<forall>i<length (x # xs). f ((x # xs) ! i) = Inr (ys ! i))"
        then obtain y' zs' where ys: "ys = y' # zs'" by (cases ys) auto
        from a ys have "f x = Inr y'" by force
        then have "y' = y" using fx by simp
        moreover have "length zs' = length xs \<and> (\<forall>i<length xs. f (xs ! i) = Inr (zs' ! i))"
          using a ys by force
        then have "collect f xs = Inr zs'" using Cons.IH [of zs'] by simp
        ultimately show "collect f (x # xs) = Inr ys" using fx ys by simp
      qed
    qed
  qed
qed

lemma collect_map_Inr:
  assumes "\<And>x. x \<in> set xs \<Longrightarrow> f x = Inr (g x)"
  shows "collect f xs = Inr (map g xs)"
  using assms by (simp add: collect_Inr_iff)

lemma collect_first_Inl: "f x = Inl e \<Longrightarrow> collect f (x # xs) = Inl e"
  by simp

lemma py_range_nat: "py_range (int n) = map int [0..<n]"
  by (simp add: py_range_def py_range3_def)

lemma py_range_50: "py_range 50 = map int [0..<50]"
  using py_range_nat [of 50] by simp

lemma has_shape_shape: "has_shape h w a \<Longrightarrow> 0 < h \<Longrightarrow> shape a = (h, w)"
  by (cases a) (auto simp: has_shape_def shape_def)

lemma np_sub_full_like: "np_sub a (np_full_like a v) = map (map (\<lambda>x. x - v)) a"
proof -
  have row: "map2 (-) xs (map (\<lambda>_. v) xs) = map (\<lambda>x. x - v) xs" for xs :: "real list"
    by (induction xs) simp_all
  have "map2 (map2 (-)) a (map (map (\<lambda>_. v)) a) = map (map (\<lambda>x. x - v)) a"
    by (induction a) (simp_all add: row)
  then show ?thesis by (simp add: np_sub_def np_full_like_def)
qed

lemma has_shape_map: "has_shape h w a \<Longrightarrow> has_shape h w (map (map g) a)"
  by (simp add: has_shape_def list_all_iff)

lemma normalized_previous_frame_eq:
  "normalized_previous_frame p c = map (map (\<lambda>x. real (unat x) / 255 - average_pixel_value p c)) p"
  by (simp add: normalized_previous_frame_def Let_def np_sub_full_like normalized_def comp_def)

lemma normalized_current_frame_eq:
  "normalized_current_frame p c = map (map (\<lambda>x. real (unat x) / 255 - average_pixel_value p c)) c"
  by (simp add: normalized_current_frame_def Let_def np_sub_full_like normalized_def comp_def)

lemma py_slice_length_general:
  "length (py_slice i j xs) = slice_bound (length xs) j - slice_bound (length xs) i"
proof -
  have "slice_bound (length xs) j \<le> length xs" by (auto simp: slice_bound_def)
  then show ?thesis by (simp add: py_slice_def Let_def)
qed

lemma py_slice_nth_general:
  "k < slice_bound (length xs) j - slice_bound (length xs) i \<Longrightarrow>
     py_slice i j xs ! k = xs ! (slice_bound (length xs) i + k)"
proof -
  assume k: "k < slice_bound (length xs) j - slice_bound (length xs) i"
  have "slice_bound (length xs) j \<le> length xs" by (auto simp: slice_bound_def)
  with k show ?thesis by (simp add: py_slice_def Let_def)
qed

lemma slice2_shape_general:
  assumes "has_shape h w a"
  shows "has_shape (slice_bound h r2 - slice_bound h r1) (slice_bound w c2 - slice_bound w c1)
           (slice2 r1 r2 c1 c2 a)"
proof (rule has_shapeI)
  from assms have la: "length a = h" by (simp add: has_shape_def)
  show "length (slice2 r1 r2 c1 c2 a) = slice_bound h r2 - slice_bound h r1"
    using la by (simp add: slice2_def py_slice_length_general)
  fix i assume i: "i < slice_bound h r2 - slice_bound h r1"
  have "slice_bound h r2 \<le> h" by (auto simp: slice_bound_def)
  with i have "slice_bound h r1 + i < h" by linarith
  then have "length (a ! (slice_bound h r1 + i)) = w" using assms by (rule has_shape_nth [rotated])
  moreover have "slice2 r1 r2 c1 c2 a ! i = py_slice c1 c2 (a ! (slice_bound h r1 + i))"
    using la i by (simp add: slice2_def py_slice_length_general py_slice_nth_general)
  ultimately show "length (slice2 r1 r2 c1 c2 a ! i) = slice_bound w c2 - slice_bound w c1"
    by (simp add: py_slice_length_general)
qed

lemma np_mul_same_shape:
  assumes "has_shape h w a" "has_shape h w b" "0 < h"
  shows "np_mul a b = Inr (map (\<lambda>i. map (\<lambda>j. a ! i ! j * b ! i ! j) [0..<w]) [0..<h])"
proof -
  have sa: "shape a = (h, w)" and sb: "shape b = (h, w)"
    using assms by (simp_all add: has_shape_shape)
  have ix: "bidx n i = i" if "i < n" for n i using that by (auto simp: bidx_def)
  have "map (\<lambda>i. map (\<lambda>j. a ! bidx h i ! bidx w j * b ! bidx h i ! bidx w j) [0..<w]) [0..<h]
      = map (\<lambda>i. map (\<lambda>j. a ! i ! j * b ! i ! j) [0..<w]) [0..<h]"
    by (intro map_cong refl) (simp add: ix)
  then show ?thesis
    by (simp add: np_mul_def sa sb broadcastable_def bdim_def)
qed

lemma np_mul_mismatch:
  assumes "has_shape h w a" "has_shape h' w' b" "0 < h" "0 < h'" "h \<noteq> h'" "h \<noteq> 1" "h' \<noteq> 1"
  shows "np_mul a b = Inl ValueError"
proof -
  have sa: "shape a = (h, w)" and sb: "shape b = (h', w')"
    using assms by (simp_all add: has_shape_shape)
  show ?thesis using assms(5-7) by (simp add: np_mul_def sa sb broadcastable_def)
qed

lemma sum_list_concat_rows:
  fixes xss :: "real list list"
  shows "sum_list (concat xss) = sum_list (map sum_list xss)"
  by (induction xss) simp_all

lemma np_sum_table:
  "np_sum (map (\<lambda>i. map (\<lambda>j. F i j) [0..<w]) [0..<h]) = (\<Sum>i<h. \<Sum>j<w. F i j)"
proof -
  have "np_sum (map (\<lambda>i. map (\<lambda>j. F i j) [0..<w]) [0..<h])
      = sum_list (map (\<lambda>i. sum_list (map (\<lambda>j. F i j) [0..<w])) [0..<h])"
    by (simp add: np_sum_def sum_list_concat_rows comp_def)
  also have "\<dots> = (\<Sum>i<h. \<Sum>j<w. F i j)"
    by (simp add: interv_sum_list_conv_sum_set_nat atLeast0LessThan)
  finally show ?thesis .
qed

lemma normalized_previous_shape:
  "has_shape h w p \<Longrightarrow> has_shape h w (normalized_previous_frame p c)"
  by (simp add: normalized_previous_frame_eq has_shape_map)

lemma normalized_current_shape:
  "has_shape h w c \<Longrightarrow> has_shape h w (normalized_current_frame p c)"
  by (simp add: normalized_current_frame_eq has_shape_map)

lemma kernel_160:
  assumes "has_shape 160 160 c"
  shows "convolutional_kernel p c = slice2 25 135 25 135 (normalized_current_frame p c)"
  using has_shape_shape [OF assms] by (simp add: convolutional_kernel_def)

lemma kernel_shape:
  assumes "has_shape 160 160 c"
  shows "has_shape 110 110 (convolutional_kernel p c)"
  using slice2_shape [OF normalized_current_shape [OF assms, of p], of 25 135 25 135]
  by (simp add: kernel_160 [OF assms])

lemma kernel_nth:
  assumes "has_shape 160 160 c" "i < 110" "j < 110"
  shows "convolutional_kernel p c ! i ! j = normalized_current_frame p c ! (25 + i) ! (25 + j)"
  using slice2_nth [OF normalized_current_shape [OF assms(1), of p], of 25 135 25 135 i j] assms(2,3)
  by (simp add: kernel_160 [OF assms(1)])

lemma window_shape:
  assumes "has_shape 160 160 a" "r < 50" "c < 50"
  shows "has_shape 110 110 (slice2 (int r) (int r + 110) (int c) (int c + 110) a)"
  using slice2_shape [OF assms(1), of "int r" "int r + 110" "int c" "int c + 110"] assms(2,3)
  by simp

lemma window_nth:
  assumes "has_shape 160 160 a" "r < 50" "c < 50" "i < 110" "j < 110"
  shows "slice2 (int r) (int r + 110) (int c) (int c + 110) a ! i ! j = a ! (r + i) ! (c + j)"
  using slice2_nth [OF assms(1), of "int r" "int r + 110" "int c" "int c + 110" i j] assms(2-5)
  by simp

lemma score_160:
  assumes p: "has_shape 160 160 p" and c: "has_shape 160 160 c" and r: "r < 50" and k: "k < 50"
  shows "(case np_mul (convolutional_kernel p c)
                 (slice2 (int r) (int r + 110) (int k) (int k + 110) (normalized_previous_frame p c)) of
            Inl e \<Rightarrow> Inl e
          | Inr m \<Rightarrow> Inr (np_sum m)) = Inr (spec_score p c r k)"
proof -
  let ?K = "convolutional_kernel p c"
  let ?Z = "normalized_previous_frame p c"
  let ?W = "slice2 (int r) (int r + 110) (int k) (int k + 110) ?Z"
  have zs: "has_shape 160 160 ?Z" using p by (rule normalized_previous_shape)
  have ws: "has_shape 110 110 ?W" using zs r k by (rule window_shape)
  have "np_mul ?K ?W = Inr (map (\<lambda>i. map (\<lambda>j. ?K ! i ! j * ?W ! i ! j) [0..<110]) [0..<110])"
    using kernel_shape [OF c, of p] ws by (rule np_mul_same_shape) simp
  moreover have "(\<Sum>i<110. \<Sum>j<110. ?K ! i ! j * ?W ! i ! j) = spec_score p c r k"
    unfolding spec_score_def
    by (intro sum.cong refl) (simp add: window_nth [OF zs r k])
  ultimately show ?thesis by (simp add: np_sum_table)
qed

lemma output_image_160:
  assumes p: "has_shape 160 160 p" and c: "has_shape 160 160 c"
  shows "output_image p c = Inr (map (\<lambda>r. map (\<lambda>k. spec_score p c r k) [0..<50]) [0..<50])"
proof -
  let ?cell = "\<lambda>r k. (case np_mul (convolutional_kernel p c)
                 (slice2 r (r + 110) k (k + 110) (normalized_previous_frame p c)) of
            Inl e \<Rightarrow> Inl e
          | Inr m \<Rightarrow> Inr (np_sum m))"
  have cell: "?cell r k = Inr (spec_score p c (nat r) (nat k))"
    if "r \<in> set (py_range 50)" "k \<in> set (py_range 50)" for r k
  proof -
    from that obtain r' k' where "r = int r'" "r' < 50" "k = int k'" "k' < 50"
      by (auto simp: py_range_50)
    then show ?thesis using score_160 [OF p c, of r' k'] by simp
  qed
  have row: "collect (?cell r) (py_range 50) = Inr (map (\<lambda>k. spec_score p c (nat r) (nat k)) (py_range 50))"
    if "r \<in> set (py_range 50)" for r
    by (rule collect_map_Inr) (rule cell [OF that])
  have "collect (\<lambda>r. collect (?cell r) (py_range 50)) (py_range 50)
      = Inr (map (\<lambda>r. map (\<lambda>k. spec_score p c (nat r) (nat k)) (py_range 50)) (py_range 50))"
    by (rule collect_map_Inr) (rule row)
  also have "map (\<lambda>r. map (\<lambda>k. spec_score p c (nat r) (nat k)) (py_range 50)) (py_range 50)
           = map (\<lambda>r. map (\<lambda>k. spec_score p c r k) [0..<50]) [0..<50]"
    by (simp add: py_range_50 comp_def)
  finally show ?thesis by (simp add: output_image_def Let_def)
qed

lemma score_at_160:
  assumes p: "has_shape 160 160 p" and c: "has_shape 160 160 c"
  shows "score_at (output_image p c) r k = (if r < 50 \<and> k < 50 then Some (spec_score p c r k) else None)"
  by (auto simp: output_image_160 [OF p c] score_at_def)

lemma has_shape_replicate: "has_shape h w (replicate h (replicate w v))"
  by (simp add: has_shape_def list_all_iff)

lemma black_shape: "has_shape 160 160 black"
  unfolding black_def by (rule has_shape_replicate)

lemma small_shape: "has_shape 100 100 small"
  unfolding small_def by (rule has_shape_replicate)

lemma rescaled_shape:
  assumes "has_shape h w img"
  shows "has_shape h w (rescaled nan_sample img)"
proof -
  have "has_shape h w (np_full_like img nan_sample)"
    using assms by (simp add: np_full_like_def has_shape_def list_all_iff)
  moreover have "has_shape h w (map (map g) (np_sub img (np_full_like img v)))" for g :: "real \<Rightarrow> uint8" and v
    using assms by (simp add: np_sub_full_like has_shape_def list_all_iff)
  ultimately show ?thesis by (simp add: rescaled_def Let_def)
qed

lemma table_shape: "has_shape h w (map (\<lambda>r. map (F r) [0..<w]) [0..<h])"
  by (rule has_shapeI) simp_all

lemma correlate_160:
  assumes "has_shape 160 160 p" "has_shape 160 160 c"
  shows "correlate_adjacent_frames nan_sample p c
       = Inr (rescaled nan_sample (map (\<lambda>r. map (\<lambda>k. spec_score p c r k) [0..<50]) [0..<50]))"
  by (simp add: correlate_adjacent_frames_def output_image_160 [OF assms])

lemma correlate_160_shape:
  assumes "has_shape 160 160 p" "has_shape 160 160 c"
  shows "\<exists>out. correlate_adjacent_frames nan_sample p c = Inr out \<and> has_shape 50 50 out"
  using correlate_160 [OF assms] rescaled_shape [OF table_shape] by simp

lemma uint8_range: "0 \<le> uint (x :: uint8) \<and> uint x \<le> 255"
proof -
  have "uint x < 2 ^ 8" using uint_bounded [of x] by simp
  then show ?thesis by simp
qed

lemma output_image_small: "output_image small small = Inl ValueError"
proof -
  let ?K = "convolutional_kernel small small"
  let ?Z = "normalized_previous_frame small small"
  have k: "?K = slice2 25 75 25 75 (normalized_current_frame small small)"
    using has_shape_shape [OF small_shape] by (simp add: convolutional_kernel_def)
  have ks: "has_shape 50 50 ?K"
    using slice2_shape [OF normalized_current_shape [OF small_shape, of small], of 25 75 25 75]
    by (simp add: k)
  have ws: "has_shape 100 100 (slice2 0 110 0 110 ?Z)"
    using slice2_shape_general [OF normalized_previous_shape [OF small_shape, of small],
        where ?r1.0 = 0 and ?r2.0 = 110 and ?c1.0 = 0 and ?c2.0 = 110]
    by (simp add: slice_bound_def)
  have m: "np_mul ?K (slice2 0 110 0 110 ?Z) = Inl ValueError"
    using ks ws by (rule np_mul_mismatch) simp_all
  have r: "py_range 50 = 0 # map int [1..<50]"
    by (simp add: py_range_50 upt_rec)
  show ?thesis
    unfolding output_image_def Let_def r
    by (rule collect_first_Inl, rule collect_first_Inl) (simp add: m)
qed

lemma length_concat_normalized: "length (concat (normalized f)) = length (concat f)"
  by (simp add: normalized_def length_concat comp_def)

lemma midpoint_is_pooled:
  assumes "length (concat p) = length (concat c)" "0 < length (concat p)"
  shows "average_pixel_value p c = pooled_mean p c"
proof -
  let ?n = "real (length (concat p))"
  have n: "?n \<noteq> 0" using assms(2) by simp
  have "average_pixel_value p c
      = (sum_list (concat (normalized p)) / ?n + sum_list (concat (normalized c)) / ?n) / 2"
    using assms(1) by (simp add: average_pixel_value_def np_mean_def length_concat_normalized)
  also have "\<dots> = (sum_list (concat (normalized p)) + sum_list (concat (normalized c))) / (?n + ?n)"
    using n by (simp add: field_simps)
  also have "\<dots> = pooled_mean p c"
    using assms(1) by (simp add: pooled_mean_def Let_def length_concat_normalized)
  finally show ?thesis .
qed

lemma constant_frame_sum:
  "sum_list (concat (normalized (replicate h (replicate w v)))) = real h * (real w * (real (unat v) / 255))"
  by (simp add: normalized_def sum_list_concat_rows sum_list_replicate)

lemma constant_frame_length: "length (concat (replicate h (replicate w v))) = h * w"
  by (simp add: length_concat sum_list_replicate)

lemma normalized_unit_interval: "list_all (list_all (\<lambda>x. 0 \<le> x \<and> x \<le> 1)) (normalized f)"
proof -
  have "unat (x :: uint8) \<le> 255" for x
    using unsigned_less [of x, where ?'a = nat] by simp
  then have u: "real (unat (x :: uint8)) \<le> 255" for x
    by (metis of_nat_le_iff of_nat_numeral)
  have l: "0 \<le> real (unat (x :: uint8))" for x by (rule of_nat_0_le_iff)
  show ?thesis using u l by (simp add: normalized_def list_all_iff)
qed

lemma bright_wide_black_average: "average_pixel_value bright_wide black = 1 / 2"
  by (simp add: average_pixel_value_def np_mean_def length_concat_normalized
        bright_wide_def black_def constant_frame_sum constant_frame_length)

lemma bright_wide_black_pooled: "pooled_mean bright_wide black = 25 / 41"
  by (simp add: pooled_mean_def Let_def length_concat_normalized
        bright_wide_def black_def constant_frame_sum constant_frame_length)

section \<open>The claims about the correlation\<close>

text \<open>
  C1, as the code has it. For two frames of 160 by 160 samples, the template is the
  zero-centred current frame without its 25 outer rows and columns on each side, 110 by
  110 samples, and for every offset \<open>(r, c)\<close> with \<open>r\<close> and \<open>c\<close> from 0 to 49 the score
  stored at \<open>(r, c)\<close> is the sum, over all positions of the template, of the product of
  the template and the window of the zero-centred previous frame whose top-left corner
  is \<open>(r, c)\<close>.
\<close>

theorem window_scores:
  assumes "has_shape 160 160 previous_frame" and "has_shape 160 160 current_frame"
  shows "has_shape 110 110 (convolutional_kernel previous_frame current_frame)
       \<and> (\<forall>i<110. \<forall>j<110. convolutional_kernel previous_frame current_frame ! i ! j
              = normalized_current_frame previous_frame current_frame ! (25 + i) ! (25 + j))
       \<and> (\<forall>r<50. \<forall>c<50. score_at (output_image previous_frame current_frame) r c
              = Some (\<Sum>i<110. \<Sum>j<110.
                        convolutional_kernel previous_frame current_frame ! i ! j
                        * normalized_previous_frame previous_frame current_frame ! (r + i) ! (c + j)))"
  using assms
  by (simp add: kernel_shape kernel_nth score_at_160 spec_score_def)

theorem window_scores_witness:
  "has_shape 160 160 black
   \<and> score_at (output_image black black) 49 49
       = Some (\<Sum>i<110. \<Sum>j<110.
                 convolutional_kernel black black ! i ! j
                 * normalized_previous_frame black black ! (49 + i) ! (49 + j))"
  using window_scores [OF black_shape black_shape] black_shape by simp

text \<open>
  C1, as the specification has it, lets the offsets run up to 50. The loops stop at 49:
  no score is stored at the offset \<open>(50, 50)\<close>.
\<close>

theorem no_score_at_last_offset:
  "score_at (output_image black black) 50 50 = None
   \<and> score_at (output_image black black) 50 50 \<noteq> Some (spec_score black black 50 50)"
  by (simp add: score_at_160 [OF black_shape black_shape])

text \<open>
  C5. A video of \<open>N\<close> frames gives \<open>N - 1\<close> correlation frames, the \<open>i\<close>-th being
  the correlation of the frames \<open>i\<close> and \<open>i + 1\<close>; a video of fewer than two frames
  gives the empty sequence; and a video of frames of 160 by 160 samples always gives a
  result.
\<close>

theorem correlation_video:
  "(length video < 2 \<longrightarrow> make_correlation_video nan_sample video = Inr [])
   \<and> (\<forall>out. make_correlation_video nan_sample video = Inr out \<longrightarrow>
         length out = length video - 1
         \<and> (\<forall>i<length out.
               correlate_adjacent_frames nan_sample (video ! i) (video ! (i + 1)) = Inr (out ! i)))
   \<and> (list_all (has_shape 160 160) video \<longrightarrow>
         (\<exists>out. make_correlation_video nan_sample video = Inr out))"
proof (intro conjI allI impI)
  assume "length video < 2"
  then show "make_correlation_video nan_sample video = Inr []"
    by (rule make_correlation_video_short)
next
  have rng: "py_range (int (length video) - 1) = map int [0..<length video - 1]"
    using py_range_nat [of "length video - 1"] by (cases video) (simp_all add: py_range_def py_range3_def)
  {
    fix out assume "make_correlation_video nan_sample video = Inr out"
    then have c: "length out = length video - 1"
      "\<forall>i<length video - 1. correlate_adjacent_frames nan_sample (video ! i) (video ! (i + 1)) = Inr (out ! i)"
      unfolding make_correlation_video_def rng collect_Inr_iff
      by (simp_all add: nat_add_distrib)
    show "length out = length video - 1" by (rule c(1))
    fix i assume "i < length out"
    then show "correlate_adjacent_frames nan_sample (video ! i) (video ! (i + 1)) = Inr (out ! i)"
      using c by simp
  }
  assume sh: "list_all (has_shape 160 160) video"
  have ok: "correlate_adjacent_frames nan_sample (video ! i) (video ! (i + 1))
        = Inr (rescaled nan_sample
            (map (\<lambda>r. map (\<lambda>k. spec_score (video ! i) (video ! (i + 1)) r k) [0..<50]) [0..<50]))"
    if "i < length video - 1" for i
  proof -
    have "has_shape 160 160 (video ! i)" "has_shape 160 160 (video ! (i + 1))"
      using sh that by (simp_all add: list_all_length)
    then show ?thesis by (rule correlate_160)
  qed
  define out where "out = map (\<lambda>i. rescaled nan_sample
            (map (\<lambda>r. map (\<lambda>k. spec_score (video ! i) (video ! (i + 1)) r k) [0..<50]) [0..<50]))
      [0..<length video - 1]"
  have "make_correlation_video nan_sample video = Inr out"
    unfolding make_correlation_video_def rng collect_Inr_iff
    using ok by (simp add: out_def nat_add_distrib)
  then show "\<exists>out. make_correlation_video nan_sample video = Inr out" by blast
qed

theorem correlation_video_witness:
  "list_all (has_shape 160 160) [black, black, black]
   \<and> (\<exists>out. make_correlation_video 0 [black, black, black] = Inr out \<and> length out = 2
        \<and> correlate_adjacent_frames 0 black black = Inr (out ! 0)
        \<and> correlate_adjacent_frames 0 black black = Inr (out ! 1))
   \<and> make_correlation_video 0 [black] = Inr []"
proof -
  have sh: "list_all (has_shape 160 160) [black, black, black]" by (simp add: black_shape)
  from correlation_video [of "[black, black, black]" 0] sh
  obtain out where out: "make_correlation_video 0 [black, black, black] = Inr out" by blast
  with correlation_video [of "[black, black, black]" 0]
  have "length out = 2 \<and> (\<forall>i<length out.
               correlate_adjacent_frames 0 ([black, black, black] ! i) ([black, black, black] ! (i + 1)) = Inr (out ! i))"
    by simp
  then have "length out = 2" "correlate_adjacent_frames 0 black black = Inr (out ! 0)"
    "correlate_adjacent_frames 0 black black = Inr (out ! 1)"
    by (auto dest: spec [of _ 0] spec [of _ 1])
  moreover have "make_correlation_video 0 [black] = Inr []"
    using correlation_video [of "[black]" 0] by simp
  ultimately show ?thesis using sh out by blast
qed

text \<open>
  C6, as the code has it. For every pair of frames of 160 by 160 samples the result is
  a frame of 50 by 50 samples, each an integer from 0 to 255.
\<close>

theorem correlate_shape:
  assumes "has_shape 160 160 previous_frame" and "has_shape 160 160 current_frame"
  shows "\<exists>out. correlate_adjacent_frames nan_sample previous_frame current_frame = Inr out
           \<and> has_shape 50 50 out
           \<and> list_all (list_all (\<lambda>x. 0 \<le> uint x \<and> uint x \<le> 255)) out"
proof -
  from correlate_160_shape [OF assms] obtain out where
    "correlate_adjacent_frames nan_sample previous_frame current_frame = Inr out" "has_shape 50 50 out"
    by blast
  moreover have "list_all (list_all (\<lambda>x. 0 \<le> uint x \<and> uint x \<le> 255)) out"
    using uint8_range by (simp add: list_all_iff)
  ultimately show ?thesis by blast
qed

theorem correlate_shape_witness:
  "has_shape 160 160 black
   \<and> (\<exists>out. correlate_adjacent_frames 0 black black = Inr out
           \<and> has_shape 50 50 out
           \<and> list_all (list_all (\<lambda>x. 0 \<le> uint x \<and> uint x \<le> 255)) out)"
  using correlate_shape [OF black_shape black_shape] black_shape by simp

text \<open>
  C6, as the specification has it, speaks of every pair of frames of one shape. Two
  frames of 100 by 100 samples give a kernel of 50 by 50 and a window of 100 by 100, and
  their product raises \<open>ValueError\<close>.
\<close>

theorem correlate_other_shape_raises:
  "has_shape 100 100 small \<and> correlate_adjacent_frames 0 small small = Inl ValueError"
  by (simp add: correlate_adjacent_frames_def output_image_small small_shape)

section \<open>A frame correlated with itself\<close>

lemma sum_one_spike:
  fixes x z :: real
  assumes "a < n"
  shows "(\<Sum>i<n. if i = a then x else z) = x + (real n - 1) * z"
proof -
  have "(\<Sum>i<n. if i = a then x else z) = (\<Sum>i<n. z + (if i = a then x - z else 0))"
    by (intro sum.cong refl) simp
  also have "\<dots> = real n * z + (x - z)"
    using assms by (simp add: sum.distrib sum.delta)
  finally show ?thesis by (simp add: algebra_simps)
qed

lemma sum_two_spikes:
  fixes x y z :: real
  assumes "a < n" "b < n" "a \<noteq> b"
  shows "(\<Sum>i<n. if i = a then x else if i = b then y else z) = x + y + (real n - 2) * z"
proof -
  have "(\<Sum>i<n. if i = a then x else if i = b then y else z)
      = (\<Sum>i<n. z + (if i = a then x - z else 0) + (if i = b then y - z else 0))"
    using assms(3) by (intro sum.cong refl) simp
  also have "\<dots> = real n * z + (x - z) + (y - z)"
    using assms by (simp add: sum.distrib sum.delta)
  finally show ?thesis by (simp add: algebra_simps)
qed

lemma ridge_shape: "has_shape 160 160 ridge"
  by (rule has_shapeI) (simp_all add: ridge_def)

lemma ridge_nth:
  "a < 160 \<Longrightarrow> b < 160 \<Longrightarrow> ridge ! a ! b = (if a = 0 then 255 else if a = 25 then 85 else 0)"
  by (simp add: ridge_def)

lemma rows_sum:
  "sum_list (concat (map (\<lambda>i. replicate w (g i)) [0..<h])) = (\<Sum>i<h. real w * g i)"
  by (simp add: sum_list_concat_rows comp_def sum_list_replicate
        interv_sum_list_conv_sum_set_nat atLeast0LessThan)

lemma rows_length: "length (concat (map (\<lambda>i. replicate w (g i)) xs)) = length xs * w"
  by (induction xs) simp_all

lemma normalized_rows:
  "normalized (map (\<lambda>i. replicate w (g i)) xs) = map (\<lambda>i. replicate w (real (unat (g i)) / 255)) xs"
  by (simp add: normalized_def)

lemma ridge_mean: "np_mean (normalized ridge) = 1 / 120"
proof -
  let ?g = "\<lambda>i::nat. real (unat (if i = 0 then 255 else if i = 25 then 85 else (0::uint8))) / 255"
  have g: "real 160 * ?g i = (if i = 0 then 160 else if i = 25 then 160 / 3 else 0)" for i
    by simp
  have n: "normalized ridge = map (\<lambda>i. replicate 160 (?g i)) [0..<160]"
    unfolding ridge_def by (rule normalized_rows)
  have "sum_list (concat (normalized ridge)) = (\<Sum>i<160. real 160 * ?g i)"
    unfolding n by (rule rows_sum)
  also have "\<dots> = (\<Sum>i<(160::nat). if i = 0 then 160 else if i = 25 then 160 / 3 else (0::real))"
    by (simp only: g)
  also have "\<dots> = 160 + 160 / 3 + (real 160 - 2) * 0"
    by (rule sum_two_spikes) simp_all
  finally have s: "sum_list (concat (normalized ridge)) = 640 / 3" by simp
  have "length (concat (normalized ridge)) = length [0..<160::nat] * 160"
    unfolding n by (rule rows_length)
  then have "length (concat (normalized ridge)) = 25600" by simp
  with s show ?thesis by (simp add: np_mean_def)
qed

lemma ridge_average: "average_pixel_value ridge ridge = 1 / 120"
  by (simp add: average_pixel_value_def ridge_mean)

lemma ridge_centred:
  assumes "a < 160" "b < 160"
  shows "normalized_previous_frame ridge ridge ! a ! b
       = (if a = 0 then 119 / 120 else if a = 25 then 13 / 40 else - (1 / 120))"
proof -
  have "length ridge = 160" "length (ridge ! a) = 160"
    using ridge_shape assms by (simp_all add: has_shape_def list_all_length)
  then show ?thesis
    using assms by (simp add: normalized_previous_frame_eq ridge_average ridge_nth)
qed

lemma ridge_same: "normalized_current_frame ridge ridge = normalized_previous_frame ridge ridge"
  by (simp add: normalized_current_frame_eq normalized_previous_frame_eq)

lemma ridge_kernel:
  assumes "i < 110" "j < 110"
  shows "convolutional_kernel ridge ridge ! i ! j = (if i = 0 then 13 / 40 else - (1 / 120))"
  using assms by (simp add: kernel_nth [OF ridge_shape] ridge_same ridge_centred)

lemma ridge_score:
  assumes "r < 50" "k < 50"
  shows "spec_score ridge ridge r k
       = 110 * (\<Sum>i<110. (if i = 0 then 13 / 40 else - (1 / 120))
                          * (if r + i = 0 then 119 / 120 else if r + i = 25 then 13 / 40 else - (1 / 120)))"
proof -
  have "spec_score ridge ridge r k
      = (\<Sum>i<110. \<Sum>j<(110::nat). (if i = 0 then 13 / 40 else - (1 / 120))
                          * (if r + i = 0 then 119 / 120 else if r + i = 25 then 13 / 40 else - (1 / 120 :: real)))"
    unfolding spec_score_def using assms
    by (intro sum.cong refl) (simp add: ridge_kernel ridge_centred)
  then show ?thesis by (simp add: sum_distrib_left)
qed

lemma ridge_score_centre: "spec_score ridge ridge 25 25 = 1793 / 144"
proof -
  have "spec_score ridge ridge 25 25
      = 110 * (\<Sum>i<(110::nat). (if i = 0 then 13 / 40 else - (1 / 120))
                 * (if 25 + i = 0 then 119 / 120 else if 25 + i = 25 then 13 / 40 else - (1 / 120)))"
    by (rule ridge_score) simp_all
  also have "(\<Sum>i<(110::nat). (if i = 0 then 13 / 40 else - (1 / 120))
                 * (if 25 + i = 0 then 119 / 120 else if 25 + i = 25 then 13 / 40 else - (1 / 120 :: real)))
      = (\<Sum>i<(110::nat). if i = 0 then 169 / 1600 else (1 / 14400 :: real))"
    by (intro sum.cong refl) simp
  also have "\<dots> = 169 / 1600 + (real 110 - 1) * (1 / 14400)"
    by (rule sum_one_spike) simp
  finally show ?thesis by simp
qed

lemma ridge_score_corner: "spec_score ridge ridge 0 0 = 1727 / 48"
proof -
  have "spec_score ridge ridge 0 0
      = 110 * (\<Sum>i<(110::nat). (if i = 0 then 13 / 40 else - (1 / 120))
                 * (if 0 + i = 0 then 119 / 120 else if 0 + i = 25 then 13 / 40 else - (1 / 120)))"
    by (rule ridge_score) simp_all
  also have "(\<Sum>i<(110::nat). (if i = 0 then 13 / 40 else - (1 / 120))
                 * (if 0 + i = 0 then 119 / 120 else if 0 + i = 25 then 13 / 40 else - (1 / 120 :: real)))
      = (\<Sum>i<(110::nat). if i = 0 then 1547 / 4800 else if i = 25 then - (13 / 4800) else (1 / 14400 :: real))"
    by (intro sum.cong refl) simp
  also have "\<dots> = 1547 / 4800 + - (13 / 4800) + (real 110 - 2) * (1 / 14400)"
    by (rule sum_two_spikes) simp_all
  finally show ?thesis by simp
qed

lemma self_previous_current:
  "normalized_current_frame f f = normalized_previous_frame f f"
  by (simp add: normalized_current_frame_eq normalized_previous_frame_eq)

lemma self_score_centre:
  assumes "has_shape 160 160 f"
  shows "spec_score f f 25 25 = window_energy f f 25 25"
  unfolding spec_score_def window_energy_def
  by (intro sum.cong refl) (simp add: kernel_nth [OF assms] self_previous_current power2_eq_square)

lemma self_score_bound:
  assumes "has_shape 160 160 f"
  shows "spec_score f f r k \<le> (window_energy f f 25 25 + window_energy f f r k) / 2"
proof -
  have xy: "x * y \<le> (x\<^sup>2 + y\<^sup>2) / 2" for x y :: real
    using sum_squares_bound [of x y] by simp
  let ?Z = "normalized_previous_frame f f"
  have "spec_score f f r k = (\<Sum>i<110. \<Sum>j<110. ?Z ! (25 + i) ! (25 + j) * ?Z ! (r + i) ! (k + j))"
    unfolding spec_score_def
    by (intro sum.cong refl) (simp add: kernel_nth [OF assms] self_previous_current)
  also have "\<dots> \<le> (\<Sum>i<110. \<Sum>j<110. ((?Z ! (25 + i) ! (25 + j))\<^sup>2 + (?Z ! (r + i) ! (k + j))\<^sup>2) / 2)"
    by (intro sum_mono xy)
  also have "\<dots> = (window_energy f f 25 25 + window_energy f f r k) / 2"
    by (simp add: window_energy_def sum.distrib add_divide_distrib flip: sum_divide_distrib)
  finally show ?thesis .
qed

lemma ridge_energy_row:
  assumes "k < 50"
  shows "window_energy ridge ridge 25 k
       = (\<Sum>i<(110::nat). \<Sum>j<(110::nat). (if i = 0 then 13 / 40 else - (1 / 120 :: real))\<^sup>2)"
  unfolding window_energy_def using assms
  by (intro sum.cong refl) (simp add: ridge_centred)

text \<open>
  C8, as the code has it. When a frame of 160 by 160 samples is correlated with itself,
  the score at the centre offset \<open>(25, 25)\<close> is the sum of the squares of the template,
  and no offset whose window has at most that sum of squares scores more than the
  centre.
\<close>

theorem self_correlation:
  assumes "has_shape 160 160 f" and "r < 50" and "c < 50"
    and "window_energy f f r c \<le> window_energy f f 25 25"
  shows "\<exists>a b. score_at (output_image f f) r c = Some a
             \<and> score_at (output_image f f) 25 25 = Some b
             \<and> b = window_energy f f 25 25 \<and> a \<le> b"
proof -
  have "spec_score f f r c \<le> spec_score f f 25 25"
    using self_score_bound [OF assms(1), of r c] assms(4) by (simp add: self_score_centre [OF assms(1)])
  then show ?thesis
    using assms(2,3) by (simp add: score_at_160 [OF assms(1) assms(1)] self_score_centre [OF assms(1)])
qed

theorem self_correlation_witness:
  "has_shape 160 160 ridge \<and> window_energy ridge ridge 25 0 \<le> window_energy ridge ridge 25 25
   \<and> (\<exists>a b. score_at (output_image ridge ridge) 25 0 = Some a
           \<and> score_at (output_image ridge ridge) 25 25 = Some b
           \<and> b = window_energy ridge ridge 25 25 \<and> a \<le> b)"
proof -
  have e: "window_energy ridge ridge 25 0 \<le> window_energy ridge ridge 25 25"
    by (simp add: ridge_energy_row)
  show ?thesis
    using self_correlation [OF ridge_shape _ _ e] ridge_shape e by simp
qed

text \<open>
  C8, as the specification has it, makes the centre the offset of the greatest score
  for every frame. For the frame \<open>ridge\<close> the score at \<open>(0, 0)\<close>, where the window holds
  the white row, is 1727/48, and the score at the centre is 1793/144.
\<close>

theorem centre_is_not_the_maximum:
  "score_at (output_image ridge ridge) 25 25 = Some (1793 / 144)
   \<and> score_at (output_image ridge ridge) 0 0 = Some (1727 / 48)
   \<and> (1793 / 144 :: real) < 1727 / 48"
  by (simp add: score_at_160 [OF ridge_shape ridge_shape] ridge_score_centre ridge_score_corner)

section \<open>The rescale in exact arithmetic\<close>



text \<open>
  Two frames of constant intensity give the same score at every offset, so the maximum
  equals the minimum and every output sample is the one the platform makes of \<open>nan\<close>.
\<close>

lemma constant_frames_scores:
  assumes "r < 50" "k < 50"
  shows "spec_score (replicate 160 (replicate 160 a)) (replicate 160 (replicate 160 b)) r k
       = 12100 * ((real (unat b) / 255
                    - average_pixel_value (replicate 160 (replicate 160 a)) (replicate 160 (replicate 160 b)))
                  * (real (unat a) / 255
                    - average_pixel_value (replicate 160 (replicate 160 a)) (replicate 160 (replicate 160 b))))"
proof -
  let ?p = "replicate 160 (replicate 160 a)" and ?c = "replicate 160 (replicate 160 b)"
  have c: "has_shape 160 160 ?c" by (rule has_shape_replicate)
  have "spec_score ?p ?c r k
      = (\<Sum>i<(110::nat). \<Sum>j<(110::nat). (real (unat b) / 255 - average_pixel_value ?p ?c)
                                * (real (unat a) / 255 - average_pixel_value ?p ?c))"
    unfolding spec_score_def using assms
    by (intro sum.cong refl)
       (simp add: kernel_nth [OF c] normalized_current_frame_eq normalized_previous_frame_eq)
  then show ?thesis by simp
qed

lemma constant_frames_degenerate:
  "correlate_adjacent_frames nan_sample (replicate 160 (replicate 160 a)) (replicate 160 (replicate 160 b))
     = Inr (replicate 50 (replicate 50 nan_sample))"
proof -
  let ?p = "replicate 160 (replicate 160 a)" and ?c = "replicate 160 (replicate 160 b)"
  obtain s where s: "\<And>r k. r < 50 \<Longrightarrow> k < 50 \<Longrightarrow> spec_score ?p ?c r k = s"
    using constant_frames_scores by blast
  have "map (\<lambda>r. map (\<lambda>k. spec_score ?p ?c r k) [0..<50]) [0..<50]
      = map (\<lambda>r. map (\<lambda>k. s) [0..<50]) [0..<50]"
    by (intro map_cong refl) (simp add: s)
  also have "\<dots> = replicate 50 (replicate 50 s)"
    by (simp add: map_replicate_const)
  finally have img: "output_image ?p ?c = Inr (replicate 50 (replicate 50 s))"
    by (simp add: output_image_160 [OF has_shape_replicate has_shape_replicate])
  have "set (concat (replicate 50 (replicate 50 s))) = {s}"
    by (auto simp: set_replicate_conv_if)
  then have "np_max (replicate 50 (replicate 50 s)) = np_min (replicate 50 (replicate 50 s))"
    by (simp add: np_max_def np_min_def)
  then have "rescaled nan_sample (replicate 50 (replicate 50 s)) = replicate 50 (replicate 50 nan_sample)"
    by (simp add: rescaled_def Let_def np_full_like_def)
  with img show ?thesis by (simp add: correlate_adjacent_frames_def)
qed

section \<open>The shared offset\<close>

lemma black_mean: "np_mean (normalized black) = 0"
  by (simp add: np_mean_def black_def constant_frame_sum)

lemma ridge_samples: "length (concat ridge) = 25600"
proof -
  have "length (concat ridge) = length [0..<160::nat] * 160"
    unfolding ridge_def by (rule rows_length)
  then show ?thesis by simp
qed

lemma black_samples: "length (concat black) = 25600"
  by (simp add: black_def constant_frame_length)

lemma ridge_black_average: "average_pixel_value ridge black = 1 / 240"
  by (simp add: average_pixel_value_def ridge_mean black_mean)

lemma ridge_black_pooled: "pooled_mean ridge black = 1 / 240"
proof -
  have "average_pixel_value ridge black = pooled_mean ridge black"
  proof (rule midpoint_is_pooled)
    show "length (concat ridge) = length (concat black)"
      by (simp only: ridge_samples black_samples)
    show "0 < length (concat ridge)"
      unfolding ridge_samples by simp
  qed
  then show ?thesis by (simp only: ridge_black_average [symmetric])
qed

text \<open>
  C2, as the code has it. Both frames are scaled to the interval from 0 to 1, and one
  scalar is then subtracted from every sample of both: the midpoint of the means of the
  two scaled frames. For two frames with the same number of samples, as two frames of
  one shape have, that midpoint is the mean of the pooled samples.
\<close>

theorem shared_offset:
  "list_all (list_all (\<lambda>x. 0 \<le> x \<and> x \<le> 1)) (normalized p)
   \<and> list_all (list_all (\<lambda>x. 0 \<le> x \<and> x \<le> 1)) (normalized c)
   \<and> normalized_previous_frame p c
        = map (map (\<lambda>x. real (unat x) / 255
                          - (np_mean (normalized p) + np_mean (normalized c)) / 2)) p
   \<and> normalized_current_frame p c
        = map (map (\<lambda>x. real (unat x) / 255
                          - (np_mean (normalized p) + np_mean (normalized c)) / 2)) c
   \<and> (length (concat p) = length (concat c) \<and> 0 < length (concat p)
        \<longrightarrow> (np_mean (normalized p) + np_mean (normalized c)) / 2 = pooled_mean p c)"
proof (intro conjI impI)
  show "list_all (list_all (\<lambda>x. 0 \<le> x \<and> x \<le> 1)) (normalized p)"
    and "list_all (list_all (\<lambda>x. 0 \<le> x \<and> x \<le> 1)) (normalized c)"
    by (rule normalized_unit_interval)+
  show "normalized_previous_frame p c
        = map (map (\<lambda>x. real (unat x) / 255
                          - (np_mean (normalized p) + np_mean (normalized c)) / 2)) p"
    unfolding normalized_previous_frame_eq average_pixel_value_def by (rule refl)
  show "normalized_current_frame p c
        = map (map (\<lambda>x. real (unat x) / 255
                          - (np_mean (normalized p) + np_mean (normalized c)) / 2)) c"
    unfolding normalized_current_frame_eq average_pixel_value_def by (rule refl)
  assume "length (concat p) = length (concat c) \<and> 0 < length (concat p)"
  then have "average_pixel_value p c = pooled_mean p c"
    using midpoint_is_pooled by blast
  then show "(np_mean (normalized p) + np_mean (normalized c)) / 2 = pooled_mean p c"
    by (simp only: average_pixel_value_def)
qed

theorem shared_offset_witness:
  "length (concat ridge) = length (concat ridge) \<and> 0 < length (concat ridge)
   \<and> (np_mean (normalized ridge) + np_mean (normalized ridge)) / 2 = pooled_mean ridge ridge
   \<and> pooled_mean ridge ridge = 1 / 120"
proof -
  have h: "length (concat ridge) = length (concat ridge) \<and> 0 < length (concat ridge)"
    by (simp only: ridge_samples) simp
  with shared_offset [of ridge ridge]
  have e: "(np_mean (normalized ridge) + np_mean (normalized ridge)) / 2 = pooled_mean ridge ridge"
    by blast
  then have "pooled_mean ridge ridge = 1 / 120" by (simp add: ridge_mean)
  with h e show ?thesis by blast
qed

text \<open>
  C2, as the specification has it, says that the scalar is not the mean of the pooled
  samples. For the frame \<open>ridge\<close> before a black frame of the same shape the scalar and
  the mean of the pooled samples are both 1/240.
\<close>

theorem offset_is_the_pooled_mean:
  "average_pixel_value ridge black = 1 / 240 \<and> pooled_mean ridge black = 1 / 240
   \<and> average_pixel_value ridge black = pooled_mean ridge black"
  by (simp add: ridge_black_average ridge_black_pooled)

section \<open>Counting turns\<close>

lemma near_spot_shape: "has_shape 50 50 near_spot"
  by (rule has_shapeI) (simp_all add: near_spot_def nth_list_update)

lemma near_spot_nth:
  "i < 50 \<Longrightarrow> j < 50 \<Longrightarrow> near_spot ! i ! j = (if i = 12 \<and> j = 16 then 255 else 0)"
  by (simp add: near_spot_def nth_list_update)

lemma block_sum_near_spot:
  assumes "q \<in> set scan_candidates"
  shows "block_sum near_spot q = (if q = (12, 16) then 255 else 0)"
proof -
  obtain r c where q: "q = (r, c)" by (cases q)
  with assms have rc: "0 \<le> r" "r \<le> 48" "0 \<le> c" "c \<le> 48" "4 dvd r" "4 dvd c"
    by (simp_all add: scan_candidates_set stride_member)
  then have b: "nat r < 50" "nat r + 1 < 50" "nat c < 50" "nat c + 1 < 50" by linarith+
  have e: "nat r = 12 \<longleftrightarrow> r = 12" "nat c = 16 \<longleftrightarrow> c = 16" using rc by linarith+
  have n: "nat r + 1 \<noteq> 12" "nat c + 1 \<noteq> 16" using rc by presburger+
  show ?thesis
    using block_sum_50 [OF near_spot_shape, of r c] assms q b e n by (simp add: near_spot_nth)
qed

lemma max_loc_near_spot: "max_loc near_spot = (12, 16)"
proof -
  from max_loc_first_maximum [of near_spot] obtain k where k: "k < length scan_candidates"
    "max_loc near_spot = scan_candidates ! k"
    "\<forall>j<length scan_candidates.
       block_sum near_spot (scan_candidates ! j) \<le> block_sum near_spot (scan_candidates ! k)"
    by blast
  have "(12, 16) \<in> set scan_candidates" by (simp add: scan_candidates_set stride_member)
  then obtain j where j: "j < length scan_candidates" "scan_candidates ! j = (12, 16)"
    by (auto simp: in_set_conv_nth)
  then have "block_sum near_spot (12, 16) \<le> block_sum near_spot (scan_candidates ! k)"
    using k(3) by force
  moreover have "block_sum near_spot (12, 16) = 255" using j by (metis block_sum_near_spot nth_mem)
  moreover have "block_sum near_spot (scan_candidates ! k)
               = (if scan_candidates ! k = (12, 16) then 255 else 0)"
    using k(1) by (simp add: block_sum_near_spot)
  ultimately have "scan_candidates ! k = (12, 16)" by (simp split: if_splits)
  with k(2) show ?thesis by simp
qed

lemma sqrt_gt_20: "20 < sqrt x \<longleftrightarrow> 400 < x"
proof -
  have "(20::real) = sqrt 400" using real_sqrt_abs [of 20] by simp
  then have "20 < sqrt x \<longleftrightarrow> sqrt 400 < sqrt x" by simp
  also have "\<dots> \<longleftrightarrow> 400 < x" by (rule real_sqrt_less_iff)
  finally show ?thesis .
qed

lemma black_correlation: "correlate_adjacent_frames 0 black black = Inr dark"
  unfolding black_def dark_def by (rule constant_frames_degenerate)

lemma black_video: "make_correlation_video 0 [black, black, black] = Inr [dark, dark]"
proof -
  have "py_range (int (length [black, black, black]) - 1) = [0, 1]"
    by (simp add: py_range_def py_range3_def upt_rec)
  then show ?thesis by (simp add: make_correlation_video_def black_correlation)
qed

lemma bright_row_shape: "has_shape 160 160 (bright_row k)"
  by (rule has_shapeI) (simp_all add: bright_row_def)

lemma bright_row_nth:
  "a < 160 \<Longrightarrow> b < 160 \<Longrightarrow> bright_row k ! a ! b = (if a = k then 255 else 0)"
  by (simp add: bright_row_def)

lemma bright_row_mean:
  assumes "k < 160"
  shows "np_mean (normalized (bright_row k)) = 1 / 160"
proof -
  let ?g = "\<lambda>i::nat. real (unat (if i = k then 255 else (0::uint8))) / 255"
  have g: "real 160 * ?g i = (if i = k then 160 else 0)" for i
    by simp
  have n: "normalized (bright_row k) = map (\<lambda>i. replicate 160 (?g i)) [0..<160]"
    unfolding bright_row_def by (rule normalized_rows)
  have "sum_list (concat (normalized (bright_row k))) = (\<Sum>i<160. real 160 * ?g i)"
    unfolding n by (rule rows_sum)
  also have "\<dots> = (\<Sum>i<(160::nat). if i = k then 160 else (0::real))"
    by (simp only: g)
  also have "\<dots> = 160 + (real 160 - 1) * 0"
    using assms by (rule sum_one_spike)
  finally have s: "sum_list (concat (normalized (bright_row k))) = 160" by simp
  have "length (concat (normalized (bright_row k))) = length [0..<160::nat] * 160"
    unfolding n by (rule rows_length)
  then have "length (concat (normalized (bright_row k))) = 25600" by simp
  with s show ?thesis by (simp add: np_mean_def)
qed

lemma bright_row_average:
  assumes "p < 160" "c < 160"
  shows "average_pixel_value (bright_row p) (bright_row c) = 1 / 160"
  using assms by (simp add: average_pixel_value_def bright_row_mean)

lemma bright_row_previous:
  assumes "p < 160" "c < 160" "a < 160" "b < 160"
  shows "normalized_previous_frame (bright_row p) (bright_row c) ! a ! b
       = (if a = p then 159 / 160 else - (1 / 160))"
proof -
  have "length (bright_row p) = 160" "length (bright_row p ! a) = 160"
    using bright_row_shape [of p] assms by (simp_all add: has_shape_def list_all_length)
  then show ?thesis
    using assms by (simp add: normalized_previous_frame_eq bright_row_average bright_row_nth)
qed

lemma bright_row_kernel:
  assumes "p < 160" "c < 160" "i < 110" "j < 110"
  shows "convolutional_kernel (bright_row p) (bright_row c) ! i ! j
       = (if 25 + i = c then 159 / 160 else - (1 / 160))"
proof -
  have "length (bright_row c) = 160" "length (bright_row c ! (25 + i)) = 160"
    using bright_row_shape [of c] assms by (simp_all add: has_shape_def list_all_length)
  then show ?thesis
    using assms
    by (simp add: kernel_nth [OF bright_row_shape] normalized_current_frame_eq
          bright_row_average bright_row_nth)
qed

lemma bright_row_score:
  assumes c: "25 \<le> c" "c < 135" and p: "49 \<le> p" "p < 110" and r: "r < 50" and k: "k < 50"
  shows "spec_score (bright_row p) (bright_row c) r k
       = (if r + c = p + 25 then 55858 / 512 else - (231 / 256))"
proof -
  have p160: "p < 160" and c160: "c < 160" using c p by simp_all
  let ?a = "c - 25" and ?b = "p - r"
  have ab: "?a < 110" "?b < 110" using c p r by simp_all
  have "spec_score (bright_row p) (bright_row c) r k
      = (\<Sum>i<(110::nat). \<Sum>j<(110::nat).
           (if i = ?a then 159 / 160 else - (1 / 160))
           * (if i = ?b then 159 / 160 else - (1 / 160 :: real)))"
    unfolding spec_score_def
  proof (intro sum.cong refl)
    fix i j :: nat assume "i \<in> {..<110}" "j \<in> {..<110}"
    then have ij: "i < 110" "j < 110" by simp_all
    have e1: "25 + i = c \<longleftrightarrow> i = ?a" using c by linarith
    have e2: "r + i = p \<longleftrightarrow> i = ?b" using p r by linarith
    have b: "r + i < 160" "k + j < 160" using ij r k by simp_all
    show "convolutional_kernel (bright_row p) (bright_row c) ! i ! j
            * normalized_previous_frame (bright_row p) (bright_row c) ! (r + i) ! (k + j)
          = (if i = ?a then 159 / 160 else - (1 / 160)) * (if i = ?b then 159 / 160 else - (1 / 160))"
      by (simp only: bright_row_kernel [OF p160 c160 ij] bright_row_previous [OF p160 c160 b] e1 e2)
  qed
  then have s: "spec_score (bright_row p) (bright_row c) r k
      = 110 * (\<Sum>i<(110::nat). (if i = ?a then 159 / 160 else - (1 / 160))
                                  * (if i = ?b then 159 / 160 else - (1 / 160 :: real)))"
    by (simp add: sum_distrib_left)
  show ?thesis
  proof (cases "?a = ?b")
    case True
    then have eq: "r + c = p + 25" using c p r by linarith
    have "(\<Sum>i<(110::nat). (if i = ?a then 159 / 160 else - (1 / 160))
                                  * (if i = ?b then 159 / 160 else - (1 / 160 :: real)))
        = (\<Sum>i<(110::nat). if i = ?a then 25281 / 25600 else (1 / 25600 :: real))"
      using True by (intro sum.cong refl) simp
    also have "\<dots> = 25281 / 25600 + (real 110 - 1) * (1 / 25600)"
      using ab(1) by (rule sum_one_spike)
    finally show ?thesis using eq by (simp add: s)
  next
    case False
    then have ne: "r + c \<noteq> p + 25" using c p r by linarith
    have "(\<Sum>i<(110::nat). (if i = ?a then 159 / 160 else - (1 / 160))
                                  * (if i = ?b then 159 / 160 else - (1 / 160 :: real)))
        = (\<Sum>i<(110::nat). if i = ?a then - (159 / 25600) else if i = ?b then - (159 / 25600)
                               else (1 / 25600 :: real))"
      using False by (intro sum.cong refl) simp
    also have "\<dots> = - (159 / 25600) + - (159 / 25600) + (real 110 - 2) * (1 / 25600)"
      using ab False by (rule sum_two_spikes)
    finally show ?thesis using ne by (simp add: s)
  qed
qed

lemma two_level_set:
  assumes "s < n" "t < n" "t \<noteq> s"
  shows "set (concat (map (\<lambda>r. replicate 50 (if r = s then hi else lo)) [0..<n])) = {hi, lo}"
proof -
  have "set (concat (map (\<lambda>r. replicate 50 (if r = s then hi else lo)) [0..<n]))
      = (\<Union>r\<in>{0..<n}. {if r = s then hi else lo})"
    by (simp add: set_replicate_conv_if)
  also have "\<dots> = {hi, lo}"
  proof
    show "(\<Union>r\<in>{0..<n}. {if r = s then hi else lo}) \<subseteq> {hi, lo}" by auto
    have "hi \<in> (\<Union>r\<in>{0..<n}. {if r = s then hi else lo})"
      using assms(1) by (intro UN_I [of s]) simp_all
    moreover have "lo \<in> (\<Union>r\<in>{0..<n}. {if r = s then hi else lo})"
      using assms(2,3) by (intro UN_I [of t]) simp_all
    ultimately show "{hi, lo} \<subseteq> (\<Union>r\<in>{0..<n}. {if r = s then hi else lo})" by simp
  qed
  finally show ?thesis .
qed

lemma two_level_rescaled:
  fixes hi lo :: real
  assumes "s < n" "t < n" "t \<noteq> s" "lo < hi"
  shows "rescaled nan_sample (map (\<lambda>r. replicate 50 (if r = s then hi else lo)) [0..<n])
       = map (\<lambda>r. replicate 50 (if r = s then 255 else 0)) [0..<n]"
proof -
  let ?U = "map (\<lambda>r. replicate 50 (if r = s then hi else lo)) [0..<n]"
  have set: "set (concat ?U) = {hi, lo}" using assms(1-3) by (rule two_level_set)
  have mx: "np_max ?U = hi" unfolding np_max_def set using assms(4) by simp
  have mn: "np_min ?U = lo" unfolding np_min_def set using assms(4) by simp
  have d: "hi - lo \<noteq> 0" using assms(4) by simp
  have e: "(hi - lo) * 255 / (hi - lo) = 255" using d by (rule nonzero_mult_div_cancel_left)
  have c: "astype_uint8 255 = 255" by (simp add: astype_uint8_def)
  have a1: "astype_uint8 ((hi - lo) * 255 / (hi - lo)) = 255" by (simp only: e c)
  have a0: "astype_uint8 ((lo - lo) * 255 / (hi - lo)) = 0" by (simp add: astype_uint8_def)
  have ne: "np_max ?U \<noteq> np_min ?U" unfolding mx mn using assms(4) by simp
  have "rescaled nan_sample ?U
      = map (map (\<lambda>x. astype_uint8 (x * 255 / (hi - lo)))) (map (map (\<lambda>x. x - lo)) ?U)"
    unfolding rescaled_def Let_def np_sub_full_like using ne by (simp only: mx mn if_False)
  also have "\<dots> = map (\<lambda>r. replicate 50 (if r = s then 255 else 0)) [0..<n]"
  proof (rule nth_equalityI)
    show "length (map (map (\<lambda>x. astype_uint8 (x * 255 / (hi - lo)))) (map (map (\<lambda>x. x - lo)) ?U))
        = length (map (\<lambda>r. replicate 50 (if r = s then 255 else 0)) [0..<n])" by simp
    fix i assume "i < length (map (map (\<lambda>x. astype_uint8 (x * 255 / (hi - lo)))) (map (map (\<lambda>x. x - lo)) ?U))"
    then have i: "i < n" by simp
    show "map (map (\<lambda>x. astype_uint8 (x * 255 / (hi - lo)))) (map (map (\<lambda>x. x - lo)) ?U) ! i
        = map (\<lambda>r. replicate 50 (if r = s then 255 else 0)) [0..<n] ! i"
    proof (cases "i = s")
      case True
      then show ?thesis using i a1 by simp
    next
      case False
      then show ?thesis using i a0 by simp
    qed
  qed
  finally show ?thesis .
qed

lemma bright_row_correlation:
  assumes c: "25 \<le> c" "c < 135" and p: "49 \<le> p" "p < 110"
    and s: "c \<le> p + 25" "p + 25 < c + 50"
  shows "correlate_adjacent_frames nan_sample (bright_row p) (bright_row c)
       = Inr (row_frame (p + 25 - c))"
proof -
  let ?s = "p + 25 - c"
  let ?T = "map (\<lambda>r. map (\<lambda>k. spec_score (bright_row p) (bright_row c) r k) [0..<50]) [0..<50]"
  let ?U = "map (\<lambda>r. replicate 50 (if r = ?s then 55858 / 512 else - (231 / 256 :: real))) [0..<50]"
  have s50: "?s < 50" using s by linarith
  have eq: "r + c = p + 25 \<longleftrightarrow> r = ?s" for r using s by linarith
  have T: "?T = ?U"
  proof (rule map_cong [OF refl])
    fix r assume "r \<in> set [0..<50]"
    then have r: "r < 50" by simp
    have "map (\<lambda>k. spec_score (bright_row p) (bright_row c) r k) [0..<50]
        = map (\<lambda>k. if r = ?s then 55858 / 512 else - (231 / 256)) [0..<50]"
      by (rule map_cong [OF refl]) (simp add: bright_row_score [OF c p r] eq)
    also have "\<dots> = replicate 50 (if r = ?s then 55858 / 512 else - (231 / 256))"
      by (simp only: map_replicate_const length_upt) simp
    finally show "map (\<lambda>k. spec_score (bright_row p) (bright_row c) r k) [0..<50]
        = replicate 50 (if r = ?s then 55858 / 512 else - (231 / 256))" .
  qed
  obtain t where t: "t < 50" "t \<noteq> ?s"
  proof (cases "?s = 0")
    case True
    then have "(1::nat) < 50 \<and> 1 \<noteq> ?s" by simp
    then show ?thesis using that by blast
  next
    case False
    then have "(0::nat) < 50 \<and> 0 \<noteq> ?s" by simp
    then show ?thesis using that by blast
  qed
  have "rescaled nan_sample ?U = map (\<lambda>r. replicate 50 (if r = ?s then 255 else 0)) [0..<50]"
    using s50 t by (rule two_level_rescaled) simp
  then have "rescaled nan_sample ?T = row_frame ?s"
    by (simp only: T row_frame_def)
  then show ?thesis
    using correlate_160 [OF bright_row_shape bright_row_shape, of nan_sample p c] by simp
qed

lemma row_frame_shape: "has_shape 50 50 (row_frame s)"
  by (rule has_shapeI) (simp_all add: row_frame_def)

lemma row_frame_nth: "i < 50 \<Longrightarrow> j < 50 \<Longrightarrow> row_frame s ! i ! j = (if i = s then 255 else 0)"
  by (simp add: row_frame_def)

lemma block_sum_row_frame:
  assumes "(r, c) \<in> set scan_candidates" and "4 dvd s"
  shows "block_sum (row_frame s) (r, c) = (if r = int s then 510 else 0)"
proof -
  from assms(1) have rc: "0 \<le> r" "r \<le> 48" "0 \<le> c" "c \<le> 48" "4 dvd r"
    by (simp_all add: scan_candidates_set stride_member)
  then have b: "nat r < 50" "nat r + 1 < 50" "nat c < 50" "nat c + 1 < 50" by linarith+
  have e: "nat r = s \<longleftrightarrow> r = int s" using rc by linarith
  have n: "nat r + 1 \<noteq> s"
  proof
    assume "nat r + 1 = s"
    then have "int s = r + 1" using rc(1) by linarith
    moreover have "4 dvd int s" using assms(2) by presburger
    ultimately show False using rc(5) by presburger
  qed
  show ?thesis
    using block_sum_50 [OF row_frame_shape assms(1), of s] b e n by (simp add: row_frame_nth)
qed

lemma stride_nth: "i < 13 \<Longrightarrow> py_range3 0 51 4 ! i = 4 * int i"
  by (simp add: py_range3_def)

lemma stride_length: "length (py_range3 0 51 4) = 13"
  by (simp add: py_range3_def)

lemma scan_candidates_nth:
  assumes "j < 169"
  shows "scan_candidates ! j = (4 * int (j div 13), 4 * int (j mod 13))"
proof -
  have "j < length (py_range3 0 51 4) * length (py_range3 0 51 4)"
    using assms by (simp add: stride_length)
  then have "scan_candidates ! j
      = (py_range3 0 51 4 ! (j div 13), py_range3 0 51 4 ! (j mod 13))"
    unfolding scan_candidates_def by (simp add: product_nth stride_length)
  moreover have "j div 13 < 13" using assms by simp
  ultimately show ?thesis by (simp add: stride_nth)
qed

lemma max_loc_at_first:
  assumes j0: "j0 < length scan_candidates"
    and le: "\<And>j. j < length scan_candidates \<Longrightarrow>
               block_sum f (scan_candidates ! j) \<le> block_sum f (scan_candidates ! j0)"
    and lt: "\<And>j. j < j0 \<Longrightarrow> block_sum f (scan_candidates ! j) < block_sum f (scan_candidates ! j0)"
  shows "max_loc f = scan_candidates ! j0"
proof -
  from max_loc_first_maximum [of f] obtain k where k: "k < length scan_candidates"
    "max_loc f = scan_candidates ! k"
    "\<forall>j<k. block_sum f (scan_candidates ! j) < block_sum f (scan_candidates ! k)"
    "\<forall>j<length scan_candidates. block_sum f (scan_candidates ! j) \<le> block_sum f (scan_candidates ! k)"
    by blast
  have "\<not> k < j0"
  proof
    assume "k < j0"
    then have "block_sum f (scan_candidates ! k) < block_sum f (scan_candidates ! j0)" by (rule lt)
    moreover have "block_sum f (scan_candidates ! j0) \<le> block_sum f (scan_candidates ! k)"
      using k(4) j0 by simp
    ultimately show False by simp
  qed
  moreover have "\<not> j0 < k"
  proof
    assume "j0 < k"
    then have "block_sum f (scan_candidates ! j0) < block_sum f (scan_candidates ! k)"
      using k(3) by simp
    moreover have "block_sum f (scan_candidates ! k) \<le> block_sum f (scan_candidates ! j0)"
      using le k(1) by simp
    ultimately show False by simp
  qed
  ultimately have "k = j0" by simp
  with k(2) show ?thesis by simp
qed

lemma max_loc_row_frame:
  assumes "s < 50" and "4 dvd s"
  shows "max_loc (row_frame s) = (int s, 0)"
proof -
  obtain a where a: "s = 4 * a" using assms(2) by (auto simp: dvd_def)
  then have a13: "a < 13" using assms(1) by simp
  let ?j0 = "13 * a"
  have j0: "?j0 < 169" using a13 by simp
  have v: "block_sum (row_frame s) (scan_candidates ! j) = (if j div 13 = a then 510 else 0)"
    if "j < 169" for j
  proof -
    have m: "scan_candidates ! j \<in> set scan_candidates"
      using that by (simp add: scan_candidates_length)
    have "block_sum (row_frame s) (4 * int (j div 13), 4 * int (j mod 13))
        = (if 4 * int (j div 13) = int s then 510 else 0)"
      using m assms(2) unfolding scan_candidates_nth [OF that] by (rule block_sum_row_frame)
    then show ?thesis unfolding scan_candidates_nth [OF that] using a by simp
  qed
  have "max_loc (row_frame s) = scan_candidates ! ?j0"
  proof (rule max_loc_at_first)
    show "?j0 < length scan_candidates" using j0 by (simp add: scan_candidates_length)
    fix j assume "j < length scan_candidates"
    then have "j < 169" by (simp add: scan_candidates_length)
    then show "block_sum (row_frame s) (scan_candidates ! j)
             \<le> block_sum (row_frame s) (scan_candidates ! ?j0)"
      using j0 by (simp add: v)
  next
    fix j assume j: "j < ?j0"
    then have "j < 169" using j0 by simp
    moreover have "j div 13 < a" using j by (simp add: less_mult_imp_div_less mult.commute)
    ultimately show "block_sum (row_frame s) (scan_candidates ! j)
             < block_sum (row_frame s) (scan_candidates ! ?j0)"
      using j0 by (simp add: v)
  qed
  then show ?thesis using j0 a by (simp add: scan_candidates_nth)
qed

lemma sweep_correlations:
  "correlate_adjacent_frames nan_sample (bright_row 55) (bright_row 80) = Inr (row_frame 0)"
  "correlate_adjacent_frames nan_sample (bright_row 80) (bright_row 65) = Inr (row_frame 40)"
  "correlate_adjacent_frames nan_sample (bright_row 65) (bright_row 90) = Inr (row_frame 0)"
  "correlate_adjacent_frames nan_sample (bright_row 90) (bright_row 75) = Inr (row_frame 40)"
  using bright_row_correlation [of 80 55 nan_sample] bright_row_correlation [of 65 80 nan_sample]
    bright_row_correlation [of 90 65 nan_sample] bright_row_correlation [of 75 90 nan_sample]
  by simp_all

lemma sweep_video:
  "make_correlation_video nan_sample [bright_row 55, bright_row 80, bright_row 65, bright_row 90]
     = Inr [row_frame 0, row_frame 40, row_frame 0]"
proof -
  have "py_range (int (length [bright_row 55, bright_row 80, bright_row 65, bright_row 90]) - 1)
      = [0, 1, 2]"
    by (simp add: py_range_def py_range3_def upt_rec)
  then show ?thesis by (simp add: make_correlation_video_def sweep_correlations)
qed

lemma longer_sweep_video:
  "make_correlation_video nan_sample
     [bright_row 55, bright_row 80, bright_row 65, bright_row 90, bright_row 75]
     = Inr [row_frame 0, row_frame 40, row_frame 0, row_frame 40]"
proof -
  have "py_range (int (length [bright_row 55, bright_row 80, bright_row 65, bright_row 90, bright_row 75]) - 1)
      = [0, 1, 2, 3]"
    by (simp add: py_range_def py_range3_def upt_rec)
  then show ?thesis by (simp add: make_correlation_video_def sweep_correlations)
qed

lemma sweep_peaks: "max_loc (row_frame 0) = (0, 0)" "max_loc (row_frame 40) = (40, 0)"
  using max_loc_row_frame [of 0] max_loc_row_frame [of 40] by simp_all

text \<open>
  C3. The classifier counts one turn for every frame after the first whose peak
  location lies at a Euclidean distance (the square root of the sum of the squares of the
  two coordinate differences) strictly greater than 20 from the peak location of the
  frame before it, whether or not that frame counted as a turn, and it answers \<open>True\<close>
  exactly when the count is 2.
\<close>

theorem turns_classified:
  "count_turns cv =
     length (filter (\<lambda>i. 20 < sqrt (real_of_int
                 ((fst (max_loc (cv ! i)) - fst (max_loc (cv ! (i - 1))))\<^sup>2
                  + (snd (max_loc (cv ! i)) - snd (max_loc (cv ! (i - 1))))\<^sup>2)))
             [1..<length cv])
   \<and> is_triangular_path nan_sample video =
       (case make_correlation_video nan_sample video of
          Inl e \<Rightarrow> Inl e
        | Inr correlated_video \<Rightarrow>
            Inr (length (filter (\<lambda>i. 20 < sqrt (real_of_int
                   ((fst (max_loc (correlated_video ! i)) - fst (max_loc (correlated_video ! (i - 1))))\<^sup>2
                    + (snd (max_loc (correlated_video ! i)) - snd (max_loc (correlated_video ! (i - 1))))\<^sup>2)))
                 [1..<length correlated_video]) = 2))"
proof -
  have c: "count_turns xs =
     length (filter (\<lambda>i. 20 < sqrt (real_of_int
                 ((fst (max_loc (xs ! i)) - fst (max_loc (xs ! (i - 1))))\<^sup>2
                  + (snd (max_loc (xs ! i)) - snd (max_loc (xs ! (i - 1))))\<^sup>2)))
             [1..<length xs])" for xs
    using count_turns_filter [of xs] by (simp add: change_def)
  show ?thesis
  proof (rule conjI)
    show "count_turns cv =
     length (filter (\<lambda>i. 20 < sqrt (real_of_int
                 ((fst (max_loc (cv ! i)) - fst (max_loc (cv ! (i - 1))))\<^sup>2
                  + (snd (max_loc (cv ! i)) - snd (max_loc (cv ! (i - 1))))\<^sup>2)))
             [1..<length cv])"
      by (rule c)
  next
    show "is_triangular_path nan_sample video =
       (case make_correlation_video nan_sample video of
          Inl e \<Rightarrow> Inl e
        | Inr correlated_video \<Rightarrow>
            Inr (length (filter (\<lambda>i. 20 < sqrt (real_of_int
                   ((fst (max_loc (correlated_video ! i)) - fst (max_loc (correlated_video ! (i - 1))))\<^sup>2
                    + (snd (max_loc (correlated_video ! i)) - snd (max_loc (correlated_video ! (i - 1))))\<^sup>2)))
                 [1..<length correlated_video]) = 2))"
    proof (cases "make_correlation_video nan_sample video")
      case (Inl e)
      then show ?thesis by (simp add: is_triangular_path_def)
    next
      case (Inr xs)
      then show ?thesis unfolding is_triangular_path_def by (simp only: sum.case c [of xs]) simp
    qed
  qed
qed

theorem turns_classified_witness:
  "count_turns [dark, near_spot, spot, spot, dark] = 2
   \<and> count_turns [dark, spot, dark, spot, dark] = 4
   \<and> is_triangular_path 0 [bright_row 55, bright_row 80, bright_row 65, bright_row 90] = Inr True
   \<and> is_triangular_path 0 [bright_row 55, bright_row 80, bright_row 65, bright_row 90, bright_row 75]
       = Inr False
   \<and> is_triangular_path 0 [black, black, black] = Inr False
   \<and> is_triangular_path 0 [] = Inr False"
proof -
  have p: "max_loc spot = (40, 40)" "max_loc dark = (0, 0)" "max_loc near_spot = (12, 16)"
    by (rule max_loc_spot, rule max_loc_dark, rule max_loc_near_spot)
  have u: "[1..<5] = [1, 2, 3, 4]" "[1..<2] = [1]" "[1..<3] = [1, 2]" "[1..<4] = [1, 2, 3]"
    by code_simp+
  have "count_turns [dark, near_spot, spot, spot, dark] = 2"
    using turns_classified [of "[dark, near_spot, spot, spot, dark]" 0 "[]"]
    by (simp add: u p sqrt_gt_20)
  moreover have "count_turns [dark, spot, dark, spot, dark] = 4"
    using turns_classified [of "[dark, spot, dark, spot, dark]" 0 "[]"]
    by (simp add: u p sqrt_gt_20)
  moreover have "is_triangular_path 0 [bright_row 55, bright_row 80, bright_row 65, bright_row 90]
      = Inr True"
    using turns_classified [of "[]" 0 "[bright_row 55, bright_row 80, bright_row 65, bright_row 90]"]
    by (simp add: sweep_video u sweep_peaks sqrt_gt_20)
  moreover have "is_triangular_path 0
      [bright_row 55, bright_row 80, bright_row 65, bright_row 90, bright_row 75] = Inr False"
    using turns_classified
      [of "[]" 0 "[bright_row 55, bright_row 80, bright_row 65, bright_row 90, bright_row 75]"]
    by (simp add: longer_sweep_video u sweep_peaks sqrt_gt_20)
  moreover have "is_triangular_path 0 [black, black, black] = Inr False"
    using turns_classified [of "[]" 0 "[black, black, black]"]
    by (simp add: black_video u p sqrt_gt_20)
  moreover have "is_triangular_path 0 [] = Inr False"
    using turns_classified [of "[]" 0 "[]"] by (simp add: make_correlation_video_short)
  ultimately show ?thesis by simp
qed

section \<open>The rescale in double precision\<close>





lemma round_f64_zero: "round_f64 0 = 0"
  by (simp add: round_f64_def)









lemma top_row_min_sample: "rescaled_sample_f64 top_row_min top_row_min top_row_max = 0"
  by (simp add: rescaled_sample_f64_def round_f64_zero astype_uint8_def)







section \<open>Frames of constant intensity\<close>



end
